theory Spec2Isabelle
  imports
    Main
    "HOL-Library.Word"
    "HOL-Library.List_Lexorder"
    "HOL-Library.Signed_Division"
begin

unbundle bit_operations_syntax

section \<open>The transaction metadata index (CMPTxList)\<close>

subsection \<open>Rows of the store\<close>

text \<open>
  The index is one ordered key/value store.  A key is a one-byte schema tag followed by
  the serialised fields of a key structure; the store keeps its rows in the bytewise
  order of the keys.  A C++ \<open>int\<close> is kept as its 32-bit pattern and read through
  \<open>sint\<close> where the sign matters; \<open>uint32_t(nBlock)\<close> is then the identity.
\<close>

type_synonym uint256 = "256 word"
type_synonym uint32 = "32 word"
type_synonym uint8 = "8 word"
type_synonym cint = "32 word"

record CPaymentTxValue =
  pv_vout :: uint32
  pv_buyer :: string
  pv_seller :: string
  pv_propertyId :: uint32
  pv_amount :: "64 word"

text \<open>
  One constructor for each key structure of the source, carrying the key fields in the
  order of \<open>SERIALIZE_METHODS\<close> and then the stored data.
\<close>

datatype row =
    BlockTx uint32 uint256
  | Tx uint256 cint uint8 uint32 "64 word"
  | PaymentTx uint256 uint32 cint uint8 CPaymentTxValue
  | DexCancelTx uint256 uint32 cint uint8 uint32 "64 word"
  | DexTxToCancel uint256 uint256
  | SendAllTx uint256 uint32 uint32 "64 word"
  | DBVersion uint8
  | NonFungible uint256 "64 word" "64 word"

text \<open>
  Modelled from the spec: the codec layer (\<open>dbbase.h\<close>: \<open>BigEndian32Inv\<close>,
  \<open>Varint\<close>, \<open>VarintSigned\<close>, \<open>PartialKey\<close>, \<open>CDBaseIterator\<close>) is not
  among the sources.  Following section 3 and 4.1 of the spec, a key is the schema tag
  followed by the field encodings, lexicographic byte order is the iteration order, and
  a \<open>BigEndian32Inv\<close> field is the bit-inverted big-endian value.  Every field has a
  fixed place, so a key is written as the list of its field values: the tag's character
  code, a 256-bit id as the number its bytes spell, an inverted field as the inverted
  number.  A partial key is a leading part of that list.
\<close>

definition CBlockTxKey :: "uint32 \<Rightarrow> uint256 \<Rightarrow> nat list" where
  "CBlockTxKey block txid = [98, unat (NOT block), unat txid]"

definition CTxKey :: "uint256 \<Rightarrow> cint \<Rightarrow> uint8 \<Rightarrow> uint32 \<Rightarrow> nat list" where
  "CTxKey txid block valid type = [116, unat txid, unat block, unat valid, unat type]"

definition CPaymentTxKey :: "uint256 \<Rightarrow> uint32 \<Rightarrow> cint \<Rightarrow> uint8 \<Rightarrow> nat list" where
  "CPaymentTxKey txid payments block valid =
     [112, unat txid, unat (NOT payments), unat block, unat valid]"

definition CDexCancelTxKey :: "uint256 \<Rightarrow> uint32 \<Rightarrow> cint \<Rightarrow> uint8 \<Rightarrow> nat list" where
  "CDexCancelTxKey txid affected block valid =
     [99, unat txid, unat (NOT affected), unat block, unat valid]"

definition CDexTxToCancelKey :: "uint256 \<Rightarrow> nat list" where
  "CDexTxToCancelKey txid = [101, unat txid]"

definition CSendAllTxKey :: "uint256 \<Rightarrow> uint32 \<Rightarrow> nat list" where
  "CSendAllTxKey txid num = [115, unat txid, unat (NOT num)]"

definition CDBVersionKey :: "nat list" where
  "CDBVersionKey = [68]"

definition CNonFugibleKey :: "uint256 \<Rightarrow> nat list" where
  "CNonFugibleKey txid = [110, unat txid]"

text \<open>The schema tags: the \<open>prefix\<close> member of each key structure.\<close>

definition prefix_b :: nat where "prefix_b = 98"
definition prefix_t :: nat where "prefix_t = 116"
definition prefix_p :: nat where "prefix_p = 112"
definition prefix_c :: nat where "prefix_c = 99"
definition prefix_e :: nat where "prefix_e = 101"
definition prefix_s :: nat where "prefix_s = 115"

text \<open>\<open>PartialKey<T>(txid)\<close>: the tag of \<open>T\<close> and its first field.\<close>

definition PartialKey :: "nat \<Rightarrow> uint256 \<Rightarrow> nat list" where
  "PartialKey tag txid = [tag, unat txid]"

fun row_key :: "row \<Rightarrow> nat list" where
  "row_key (BlockTx block txid) = CBlockTxKey block txid"
| "row_key (Tx txid block valid type nValue) = CTxKey txid block valid type"
| "row_key (PaymentTx txid payments block valid pv) = CPaymentTxKey txid payments block valid"
| "row_key (DexCancelTx txid affected block valid propertyId amount) =
     CDexCancelTxKey txid affected block valid"
| "row_key (DexTxToCancel txid cancelTx) = CDexTxToCancelKey txid"
| "row_key (SendAllTx txid num propertyId amount) = CSendAllTxKey txid num"
| "row_key (DBVersion version) = CDBVersionKey"
| "row_key (NonFungible txid start end) = CNonFugibleKey txid"

type_synonym db = "row list"

text \<open>The store holds its rows in strictly ascending key order.\<close>

definition db_sorted :: "db \<Rightarrow> bool" where
  "db_sorted d = sorted_wrt (\<lambda>r s. row_key r < row_key s) d"

text \<open>\<open>Write\<close> puts a row, replacing the row of the same key.\<close>

fun Write :: "row \<Rightarrow> db \<Rightarrow> db" where
  "Write r [] = [r]"
| "Write r (x # xs) =
     (if row_key r < row_key x then r # x # xs
      else if row_key r = row_key x then r # xs
      else x # Write r xs)"

text \<open>A write batch of deletions, applied at once by \<open>WriteBatch\<close>.\<close>

type_synonym CDBWriteBatch = "nat list list"

definition WriteBatch :: "CDBWriteBatch \<Rightarrow> db \<Rightarrow> db" where
  "WriteBatch batch d = filter (\<lambda>r. row_key r \<notin> set batch) d"

subsection \<open>The iterator\<close>

text \<open>
  Modelled from the spec: \<open>CDBaseIterator\<close> is not among the sources.  An iterator
  reads a snapshot of the store.  Seeking moves it to the first row whose key is not
  below the given key; it is valid while a row is left and the row's key starts with
  the partial key.  A seek with a partial key keeps that partial key; a seek with a
  whole key structure keeps the schema tag, so the scan stays within the schema.
\<close>

record CDBaseIterator =
  snapshot :: db
  cursor :: db
  partialKey :: "nat list"

definition NewIterator :: "db \<Rightarrow> CDBaseIterator" where
  "NewIterator d = \<lparr>snapshot = d, cursor = d, partialKey = []\<rparr>"

definition seek_rows :: "nat list \<Rightarrow> db \<Rightarrow> db" where
  "seek_rows k d = dropWhile (\<lambda>r. row_key r < k) d"

definition Seek_partial :: "nat list \<Rightarrow> CDBaseIterator \<Rightarrow> CDBaseIterator" where
  "Seek_partial pk it = it\<lparr>cursor := seek_rows pk (snapshot it), partialKey := pk\<rparr>"

definition Seek_key :: "nat list \<Rightarrow> CDBaseIterator \<Rightarrow> CDBaseIterator" where
  "Seek_key k it = it\<lparr>cursor := seek_rows k (snapshot it), partialKey := take 1 k\<rparr>"

definition has_prefix :: "nat list \<Rightarrow> row \<Rightarrow> bool" where
  "has_prefix pk r = (take (length pk) (row_key r) = pk)"

definition Valid :: "CDBaseIterator \<Rightarrow> bool" where
  "Valid it = (case cursor it of [] \<Rightarrow> False | r # rs \<Rightarrow> has_prefix (partialKey it) r)"

definition Next :: "CDBaseIterator \<Rightarrow> CDBaseIterator" where
  "Next it = it\<lparr>cursor := tl (cursor it)\<rparr>"

subsection \<open>Sub-record counts\<close>

text \<open>
  \<open>getNumberOfSubRecords\<close>: the \<open>payments\<close> field of the first payment row of the
  transaction, else the \<open>num\<close> field of its first send-all row, else 0.  The result is
  the C++ \<open>int\<close> holding the field's bits.
\<close>

definition getNumberOfSubRecords :: "db \<Rightarrow> uint256 \<Rightarrow> cint" where
  "getNumberOfSubRecords d txid =
     (let it = Seek_partial (PartialKey prefix_p txid) (NewIterator d) in
      case (Valid it, cursor it) of
        (True, PaymentTx t payments block valid pv # rs) \<Rightarrow> payments
      | _ \<Rightarrow>
         (let it2 = Seek_partial (PartialKey prefix_s txid) it in
          case (Valid it2, cursor it2) of
            (True, SendAllTx t num propertyId amount # rs) \<Rightarrow> num
          | _ \<Rightarrow> 0))"

subsection \<open>Recording\<close>

text \<open>
  The counters \<open>nWritten\<close> and \<open>nRead\<close> and the log lines are left out: they feed
  \<open>printStats\<close> only.  \<open>recordTX\<close> looks the transaction up first, but only to log an
  overwrite; it then writes the block-index row and the primary record.
\<close>

definition bool_to_uint8 :: "bool \<Rightarrow> uint8" where
  "bool_to_uint8 b = (if b then 1 else 0)"

definition recordTX :: "db \<Rightarrow> uint256 \<Rightarrow> bool \<Rightarrow> cint \<Rightarrow> uint32 \<Rightarrow> 64 word \<Rightarrow> db" where
  "recordTX d txid fValid nBlock type nValue =
     Write (Tx txid nBlock (bool_to_uint8 fValid) type nValue) (Write (BlockTx nBlock txid) d)"

definition recordPaymentTX ::
  "db \<Rightarrow> uint256 \<Rightarrow> bool \<Rightarrow> cint \<Rightarrow> uint32 \<Rightarrow> uint32 \<Rightarrow> 64 word \<Rightarrow> string \<Rightarrow> string \<Rightarrow> db" where
  "recordPaymentTX d txid fValid nBlock vout propertyId nValue buyer seller =
     (let it = Seek_partial (PartialKey prefix_p txid) (NewIterator d);
          numberOfPayments =
            (case (Valid it, cursor it) of
               (True, PaymentTx t payments block valid pv # rs) \<Rightarrow> payments + 1
             | _ \<Rightarrow> 1);
          d1 = Write (BlockTx nBlock txid) d
      in Write (PaymentTx txid numberOfPayments nBlock (bool_to_uint8 fValid)
                  \<lparr>pv_vout = vout, pv_buyer = buyer, pv_seller = seller,
                   pv_propertyId = propertyId, pv_amount = nValue\<rparr>) d1)"

definition recordMetaDExCancelTX ::
  "db \<Rightarrow> uint256 \<Rightarrow> uint256 \<Rightarrow> bool \<Rightarrow> cint \<Rightarrow> uint32 \<Rightarrow> 64 word \<Rightarrow> db" where
  "recordMetaDExCancelTX d txid txidSub fValid nBlock propertyId nValue =
     (let it = Seek_partial (PartialKey prefix_c txid) (NewIterator d);
          numerOfAffected =
            (case (Valid it, cursor it) of
               (True, DexCancelTx t affected block valid p a # rs) \<Rightarrow> affected + 1
             | _ \<Rightarrow> 1);
          d1 = Write (BlockTx nBlock txid) d;
          d2 = Write (DexTxToCancel txidSub txid) d1
      in Write (DexCancelTx txid numerOfAffected nBlock (bool_to_uint8 fValid) propertyId nValue) d2)"

text \<open>
  \<open>recordSendAllSubRecord\<close> takes the sub-record number from its caller
  (\<open>uint32_t(subRecordNumber)\<close>); it writes the sub-record, then the block-index row.
\<close>

definition recordSendAllSubRecord :: "db \<Rightarrow> uint256 \<Rightarrow> cint \<Rightarrow> cint \<Rightarrow> uint32 \<Rightarrow> 64 word \<Rightarrow> db" where
  "recordSendAllSubRecord d txid nBlock subRecordNumber propertyId nValue =
     Write (BlockTx nBlock txid) (Write (SendAllTx txid subRecordNumber propertyId nValue) d)"

subsection \<open>Lookups\<close>

text \<open>\<open>getTX\<close>: the first primary record of the transaction, key and value.\<close>

definition getTX :: "db \<Rightarrow> uint256 \<Rightarrow> (uint256 \<times> cint \<times> uint8 \<times> uint32 \<times> 64 word) option" where
  "getTX d txid =
     (let it = Seek_partial (PartialKey prefix_t txid) (NewIterator d) in
      case (Valid it, cursor it) of
        (True, Tx t block valid type nValue # rs) \<Rightarrow> Some (t, block, valid, type, nValue)
      | _ \<Rightarrow> None)"

text \<open>
  \<open>getValidMPTX\<close> returns the validity and assigns through each of its three pointers
  that is not null.  The result records an assignment as \<open>Some\<close> of the assigned
  number and no assignment as \<open>None\<close>.  In the fallback the stored payment data is
  read as an \<open>int64_t\<close>; the value codec is not among the sources, so that read is the
  parameter \<open>as_int64\<close>, \<open>None\<close> when it fails.
\<close>

record ValidMPTX =
  validity :: bool
  out_block :: "cint option"
  out_type :: "uint32 option"
  out_nAmended :: "64 word option"

definition getValidMPTX :: "(CPaymentTxValue \<Rightarrow> 64 word option) \<Rightarrow> db \<Rightarrow> uint256 \<Rightarrow> ValidMPTX" where
  "getValidMPTX as_int64 d txid =
     (case getTX d txid of
        Some (t, block, valid, type, nValue) \<Rightarrow>
          \<lparr>validity = (0 < valid), out_block = Some block, out_type = Some type,
           out_nAmended = Some nValue\<rparr>
      | None \<Rightarrow>
          (let it = Seek_partial (PartialKey prefix_p txid) (NewIterator d) in
           case (Valid it, cursor it) of
             (True, PaymentTx t payments block valid pv # rs) \<Rightarrow>
               (case as_int64 pv of
                  Some n \<Rightarrow>
                    \<lparr>validity = (0 < valid), out_block = Some block, out_type = Some 0,
                     out_nAmended = Some n\<rparr>
                | None \<Rightarrow>
                    \<lparr>validity = False, out_block = None, out_type = None,
                     out_nAmended = None\<rparr>)
           | _ \<Rightarrow>
               \<lparr>validity = False, out_block = None, out_type = None, out_nAmended = None\<rparr>))"

subsection \<open>Block range scan\<close>

text \<open>
  The loop of \<open>GetOmniTxsInBlockRange\<close> over the rows from the cursor on.  The row's
  block is a \<open>uint32_t\<close> and \<open>blockFirst\<close> an \<open>int\<close>, so \<open>key.block < blockFirst\<close>
  compares the two as unsigned numbers.
\<close>

fun GetOmniTxs_loop :: "nat list \<Rightarrow> cint \<Rightarrow> db \<Rightarrow> uint256 set \<Rightarrow> uint256 set" where
  "GetOmniTxs_loop pk blockFirst [] retTxs = retTxs"
| "GetOmniTxs_loop pk blockFirst (r # rs) retTxs =
     (if \<not> has_prefix pk r then retTxs
      else case r of
        BlockTx block txid \<Rightarrow>
          if block < blockFirst then retTxs
          else GetOmniTxs_loop pk blockFirst rs (insert txid retTxs)
      | _ \<Rightarrow> retTxs)"

definition GetOmniTxsInBlockRange :: "db \<Rightarrow> cint \<Rightarrow> cint \<Rightarrow> uint256 set \<Rightarrow> nat \<times> uint256 set" where
  "GetOmniTxsInBlockRange d blockFirst blockLast retTxs =
     (let it = Seek_key (CBlockTxKey blockLast 0) (NewIterator d);
          ret = GetOmniTxs_loop (partialKey it) blockFirst (cursor it) retTxs
      in (card ret, ret))"

subsection \<open>Deletion\<close>

text \<open>\<open>DeleteToBatch<T>\<close>: every row under the partial key goes into the batch.\<close>

fun DeleteToBatch_loop :: "nat list \<Rightarrow> db \<Rightarrow> bool \<times> CDBWriteBatch \<Rightarrow> bool \<times> CDBWriteBatch" where
  "DeleteToBatch_loop pk [] (found, batch) = (found, batch)"
| "DeleteToBatch_loop pk (r # rs) (found, batch) =
     (if \<not> has_prefix pk r then (found, batch)
      else DeleteToBatch_loop pk rs (True, batch @ [row_key r]))"

definition DeleteToBatch :: "nat \<Rightarrow> CDBWriteBatch \<Rightarrow> CDBaseIterator \<Rightarrow> uint256 \<Rightarrow> bool \<times> CDBWriteBatch" where
  "DeleteToBatch tag batch it txid =
     (let it1 = Seek_partial (PartialKey tag txid) it
      in DeleteToBatch_loop (partialKey it1) (cursor it1) (False, batch))"

text \<open>The first loop of \<open>deleteTransactions\<close>: block-index rows from the highest block down.\<close>

fun delete_blocks_loop :: "nat list \<Rightarrow> cint \<Rightarrow> db \<Rightarrow> CDBWriteBatch \<Rightarrow> CDBWriteBatch" where
  "delete_blocks_loop pk block [] batch = batch"
| "delete_blocks_loop pk block (r # rs) batch =
     (if \<not> has_prefix pk r then batch
      else case r of
        BlockTx b txid \<Rightarrow>
          if b < block then batch
          else delete_blocks_loop pk block rs (batch @ [row_key r])
      | _ \<Rightarrow> batch)"

text \<open>
  The body of the second loop, for one transaction id.  \<open>||\<close> and \<open>&&\<close> evaluate
  their right operand only when the left one does not decide, \<open>|=\<close> always does.  The
  flag \<open>deleted\<close> is only logged.
\<close>

definition delete_tx_step ::
  "CDBaseIterator \<Rightarrow> uint256 \<Rightarrow> CDBWriteBatch \<times> uint256 set \<Rightarrow> CDBWriteBatch \<times> uint256 set" where
  "delete_tx_step it txid st =
     (let (batch, cancelTxs) = st;
          (foundT, batch1) = DeleteToBatch prefix_t batch it txid;
          (batch3, cancelTxs3) =
            (if foundT then (batch1, cancelTxs)
             else
               (let (foundP, batch2) = DeleteToBatch prefix_p batch1 it txid in
                if foundP then (batch2, cancelTxs)
                else
                  (let (foundC, batch2c) = DeleteToBatch prefix_c batch2 it txid in
                   if foundC then (batch2c, insert txid cancelTxs)
                   else (batch2c, cancelTxs))));
          (foundS, batch4) = DeleteToBatch prefix_s batch3 it txid;
          (foundE, batch5) = DeleteToBatch prefix_e batch4 it txid
      in (batch5, cancelTxs3))"

text \<open>The third loop: the reverse links, while cancelling transactions are left.\<close>

fun delete_links_loop ::
  "nat list \<Rightarrow> db \<Rightarrow> CDBWriteBatch \<times> uint256 set \<Rightarrow> CDBWriteBatch \<times> uint256 set" where
  "delete_links_loop pk [] (batch, cancelTxs) = (batch, cancelTxs)"
| "delete_links_loop pk (r # rs) (batch, cancelTxs) =
     (if \<not> (has_prefix pk r \<and> cancelTxs \<noteq> {}) then (batch, cancelTxs)
      else case r of
        DexTxToCancel target txid \<Rightarrow>
          if txid \<in> cancelTxs
          then delete_links_loop pk rs (batch @ [row_key r], cancelTxs - {txid})
          else delete_links_loop pk rs (batch, cancelTxs)
      | _ \<Rightarrow> (batch, cancelTxs))"

text \<open>
  \<open>deleteTransactions\<close>.  The set \<open>txs\<close> is given as the list of its elements in
  the order the loop takes them.  \<open>CBlockTxKey{}\<close> has \<open>block = ~0u\<close> and a zero
  id, \<open>CDexTxToCancelKey{{}}\<close> a zero id.
\<close>

definition deleteTransactions :: "db \<Rightarrow> uint256 list \<Rightarrow> cint \<Rightarrow> db" where
  "deleteTransactions d txs block =
     (let it = NewIterator d;
          it1 = Seek_key (CBlockTxKey (- 1) 0) it;
          batch1 = delete_blocks_loop (partialKey it1) block (cursor it1) [];
          (batch2, cancelTxs) = foldl (\<lambda>st txid. delete_tx_step it1 txid st) (batch1, {}) txs;
          it3 = Seek_key (CDexTxToCancelKey 0) it1;
          (batch3, cancelTxs3) = delete_links_loop (partialKey it3) (cursor it3) (batch2, cancelTxs)
      in WriteBatch batch3 d)"

subsection \<open>A small store\<close>

text \<open>
  The scenario of the spec: a primary record at block 100, then two payment sub-records
  of the same transaction.
\<close>

definition scenario_db :: db where
  "scenario_db =
     recordPaymentTX
       (recordPaymentTX (recordTX [] 7 True 100 0 50) 7 True 100 1 1 25 ''buyer'' ''seller'')
       7 True 100 2 1 30 ''buyer'' ''seller''"

text \<open>Three transactions recorded at the heights 100, 103 and 106.\<close>

definition range_db :: db where
  "range_db = recordTX (recordTX (recordTX [] 1 True 100 0 10) 2 True 103 0 20) 3 True 106 0 30"

subsection \<open>Rows of a transaction\<close>

text \<open>
  A row is keyed by a transaction id when it belongs to one of the five schemas whose
  key starts with a transaction id (primary record, payment, cancel and send-all
  sub-records, reverse cancel-link) and carries that id there.
\<close>

fun keyed_by :: "uint256 \<Rightarrow> row \<Rightarrow> bool" where
  "keyed_by t (Tx t' b v ty n) = (t' = t)"
| "keyed_by t (PaymentTx t' p b v pv) = (t' = t)"
| "keyed_by t (DexCancelTx t' n b v p a) = (t' = t)"
| "keyed_by t (SendAllTx t' n p a) = (t' = t)"
| "keyed_by t (DexTxToCancel t' c) = (t' = t)"
| "keyed_by t (BlockTx b t') = False"
| "keyed_by t (DBVersion v) = False"
| "keyed_by t (NonFungible t' s e) = False"

text \<open>
  The rows under a partial key, and the rows one pass of the second loop of
  \<open>deleteTransactions\<close> puts into the batch for a transaction id.
\<close>

definition under :: "nat \<Rightarrow> uint256 \<Rightarrow> db \<Rightarrow> db" where
  "under tag txid d = filter (has_prefix (PartialKey tag txid)) d"

definition step_rows :: "db \<Rightarrow> uint256 \<Rightarrow> db" where
  "step_rows d txid =
     under prefix_t txid d @
     (if under prefix_t txid d \<noteq> [] then []
      else under prefix_p txid d @
        (if under prefix_p txid d \<noteq> [] then [] else under prefix_c txid d)) @
     under prefix_s txid d @ under prefix_e txid d"

text \<open>An order (transaction 5, block 100) cancelled by transaction 9 in block 101.\<close>

definition cancel_db :: db where
  "cancel_db = recordMetaDExCancelTX (recordTX [] 5 True 100 25 10) 9 5 True 101 1 10"

section \<open>The checkpoint store (persistence.cpp)\<close>

subsection \<open>When a checkpoint is due\<close>



subsection \<open>Text helpers of the libraries\<close>

text \<open>
  \<open>boost::split\<close> with \<open>token_compress_on\<close>: the text is cut at every run of
  delimiters; a delimiter at the start or at the end leaves an empty token there.
\<close>

fun split_compress :: "(char \<Rightarrow> bool) \<Rightarrow> string \<Rightarrow> string list" where
  "split_compress d [] = [[]]"
| "split_compress d (c # cs) =
     (if d c then
        (case cs of
           c' # cs' \<Rightarrow> if d c' then split_compress d cs else [] # split_compress d cs
         | [] \<Rightarrow> [] # split_compress d cs)
      else
        (case split_compress d cs of
           t # ts \<Rightarrow> (c # t) # ts
         | [] \<Rightarrow> [[c]]))"

definition is_any_of :: "string \<Rightarrow> char \<Rightarrow> bool" where
  "is_any_of delims c = (c \<in> set delims)"

text \<open>\<open>std::getline\<close> in a loop: the lines of a text, cut at every line feed.\<close>

fun getlines :: "string \<Rightarrow> string list" where
  "getlines [] = [[]]"
| "getlines (c # cs) =
     (if c = CHR 0x0A then [] # getlines cs
      else (case getlines cs of t # ts \<Rightarrow> (c # t) # ts | [] \<Rightarrow> [[c]]))"

text \<open>The hexadecimal form of a 256-bit hash: \<open>uint256::ToString\<close> and \<open>SetHex\<close>.\<close>

definition hex_char :: "nat \<Rightarrow> char" where
  "hex_char n = ''0123456789abcdef'' ! (n mod 16)"

fun to_hex :: "nat \<Rightarrow> nat \<Rightarrow> string" where
  "to_hex 0 n = []"
| "to_hex (Suc k) n = to_hex k (n div 16) @ [hex_char n]"

definition ToString :: "uint256 \<Rightarrow> string" where
  "ToString h = to_hex 64 (unat h)"

definition HexDigit :: "char \<Rightarrow> nat option" where
  "HexDigit c =
     (let n = (of_char c :: nat) in
      if 48 \<le> n \<and> n \<le> 57 then Some (n - 48)
      else if 97 \<le> n \<and> n \<le> 102 then Some (n - 87)
      else if 65 \<le> n \<and> n \<le> 70 then Some (n - 55)
      else None)"

definition IsSpace :: "char \<Rightarrow> bool" where
  "IsSpace c = (let n = (of_char c :: nat) in n = 32 \<or> (9 \<le> n \<and> n \<le> 13))"

definition ToLower :: "char \<Rightarrow> char" where
  "ToLower c =
     (let n = (of_char c :: nat) in if 65 \<le> n \<and> n \<le> 90 then char_of (n + 32) else c)"

definition hex_value :: "string \<Rightarrow> nat" where
  "hex_value ds = foldl (\<lambda>a c. 16 * a + (case HexDigit c of Some v \<Rightarrow> v | None \<Rightarrow> 0)) 0 ds"

text \<open>
  \<open>SetHex\<close> skips leading spaces and one \<open>0x\<close>, takes the hexadecimal digits that
  follow and keeps the lowest 256 bits of the number they spell.
\<close>

definition SetHex :: "string \<Rightarrow> uint256" where
  "SetHex psz =
     (let s1 = dropWhile IsSpace psz;
          s2 = (case s1 of
                  c0 # c1 # cs \<Rightarrow> if c0 = CHR ''0'' \<and> ToLower c1 = CHR ''x'' then cs else s1
                | _ \<Rightarrow> s1);
          digits = takeWhile (\<lambda>c. HexDigit c \<noteq> None) s2
      in of_nat (hex_value digits))"

subsection \<open>State files\<close>





subsection \<open>Pruning\<close>

text \<open>
  The directory of state files is a list of entries, each a file name, whether it is a
  regular file, and the text in it.  \<open>fs::remove\<close> takes the entry of a name away.
\<close>

record dir_entry =
  entry_name :: string
  is_regular_file :: bool
  entry_text :: string

type_synonym directory = "dir_entry list"







subsection \<open>Numbers as text\<close>

text \<open>
  \<open>strprintf("%d", n)\<close> writes a number in decimal, with a minus sign when it is
  negative.  \<open>boost::lexical_cast\<close> reads an optional sign and decimal digits, and
  throws on anything else and on a number out of range; the throw is the result
  \<open>None\<close>.  For an unsigned target a minus sign negates modulo the width.
\<close>

definition digit_char :: "nat \<Rightarrow> char" where
  "digit_char n = ''0123456789'' ! (n mod 10)"

function show_nat :: "nat \<Rightarrow> string" where
  "show_nat n = (if n < 10 then [digit_char n] else show_nat (n div 10) @ [digit_char n])"
  by pat_completeness auto
termination
  by (relation "measure id") auto

declare show_nat.simps [simp del]

definition show_int64 :: "64 word \<Rightarrow> string" where
  "show_int64 w = (if sint w < 0 then CHR ''-'' # show_nat (nat (- sint w)) else show_nat (nat (sint w)))"

definition show_uint32 :: "uint32 \<Rightarrow> string" where
  "show_uint32 w = show_nat (unat w)"

definition is_digit :: "char \<Rightarrow> bool" where
  "is_digit c = (48 \<le> (of_char c :: nat) \<and> (of_char c :: nat) \<le> 57)"

definition digits_value :: "string \<Rightarrow> nat option" where
  "digits_value ds =
     (if ds \<noteq> [] \<and> list_all is_digit ds
      then Some (foldl (\<lambda>a c. 10 * a + (of_char c - 48)) 0 ds)
      else None)"

definition signed_digits :: "string \<Rightarrow> (bool \<times> nat) option" where
  "signed_digits s =
     (case s of
        [] \<Rightarrow> None
      | c # cs \<Rightarrow>
          if c = CHR ''-'' then map_option (Pair True) (digits_value cs)
          else if c = CHR ''+'' then map_option (Pair False) (digits_value cs)
          else map_option (Pair False) (digits_value s))"

definition lexical_cast_int64 :: "string \<Rightarrow> 64 word option" where
  "lexical_cast_int64 s =
     (case signed_digits s of
        None \<Rightarrow> None
      | Some (neg, v) \<Rightarrow>
          if neg then (if v \<le> 2 ^ 63 then Some (- of_nat v) else None)
          else (if v < 2 ^ 63 then Some (of_nat v) else None))"

definition lexical_cast_uint32 :: "string \<Rightarrow> uint32 option" where
  "lexical_cast_uint32 s =
     (case signed_digits s of
        None \<Rightarrow> None
      | Some (neg, v) \<Rightarrow>
          if v < 2 ^ 32 then Some (if neg then - of_nat v else of_nat v) else None)"

subsection \<open>The balances table\<close>

text \<open>
  The tally of one address (\<open>CMPTally\<close>, not among the sources) is read through
  \<open>init\<close>, \<open>next\<close> and \<open>getMoney\<close> only: it is the list of its property ids,
  in the order \<open>next\<close> delivers them, each with its four amounts.  \<open>next\<close> returns 0
  at the end, so the loop of the writer also ends at a property id 0.  The map
  \<open>mp_tally_map\<close> is the list of its entries in iteration order.
\<close>

datatype TallyType = BALANCE | SELLOFFER_RESERVE | ACCEPT_RESERVE | METADEX_RESERVE

record PropertyTally =
  balance :: "64 word"
  sellReserved :: "64 word"
  acceptReserved :: "64 word"
  metadexReserved :: "64 word"

type_synonym CMPTally = "(uint32 \<times> PropertyTally) list"

type_synonym tally_map = "(string \<times> CMPTally) list"

definition getMoney :: "CMPTally \<Rightarrow> uint32 \<Rightarrow> TallyType \<Rightarrow> 64 word" where
  "getMoney t propertyId ttype =
     (case map_of t propertyId of
        None \<Rightarrow> 0
      | Some a \<Rightarrow>
          (case ttype of
             BALANCE \<Rightarrow> balance a
           | SELLOFFER_RESERVE \<Rightarrow> sellReserved a
           | ACCEPT_RESERVE \<Rightarrow> acceptReserved a
           | METADEX_RESERVE \<Rightarrow> metadexReserved a))"

text \<open>What has been written to the file and what has been fed to the hasher.\<close>

record out_state =
  file_text :: string
  hasher_data :: string

definition write_line :: "string \<Rightarrow> out_state \<Rightarrow> out_state" where
  "write_line lineOut out =
     \<lparr>file_text = file_text out @ lineOut @ [CHR 0x0A],
      hasher_data = hasher_data out @ lineOut\<rparr>"

text \<open>\<open>strprintf("%d:%d,%d,%d,%d;", ...)\<close>.\<close>

definition balance_entry :: "uint32 \<Rightarrow> 64 word \<Rightarrow> 64 word \<Rightarrow> 64 word \<Rightarrow> 64 word \<Rightarrow> string" where
  "balance_entry propertyId b s a m =
     show_uint32 propertyId @ '':'' @ show_int64 b @ '','' @ show_int64 s @ '','' @
     show_int64 a @ '','' @ show_int64 m @ '';''"

text \<open>The inner loop of \<open>write_msc_balances\<close> over the ids that \<open>next\<close> delivers.\<close>

fun write_properties :: "CMPTally \<Rightarrow> uint32 list \<Rightarrow> bool \<times> string \<Rightarrow> bool \<times> string" where
  "write_properties t [] (emptyWallet, lineOut) = (emptyWallet, lineOut)"
| "write_properties t (propertyId # ids) (emptyWallet, lineOut) =
     (if propertyId = 0 then (emptyWallet, lineOut)
      else
        (let b = getMoney t propertyId BALANCE;
             s = getMoney t propertyId SELLOFFER_RESERVE;
             a = getMoney t propertyId ACCEPT_RESERVE;
             m = getMoney t propertyId METADEX_RESERVE
         in if b = 0 \<and> s = 0 \<and> a = 0 \<and> m = 0
            then write_properties t ids (emptyWallet, lineOut)
            else write_properties t ids (False, lineOut @ balance_entry propertyId b s a m)))"

fun write_msc_balances :: "tally_map \<Rightarrow> out_state \<Rightarrow> out_state" where
  "write_msc_balances [] out = out"
| "write_msc_balances ((address, curAddr) # rest) out =
     (let (emptyWallet, lineOut) = write_properties curAddr (map fst curAddr) (True, address @ ''='')
      in write_msc_balances rest (if \<not> emptyWallet then write_line lineOut out else out))"

text \<open>
  A line parser returns 0, or returns \<open>-1\<close> with the lines it had applied so far, or
  throws (a failed \<open>lexical_cast\<close>).
\<close>

datatype 's parse_result = Parsed 's | ParseFailed 's | Thrown

text \<open>
  \<open>input_msc_balances_string\<close>.  \<open>update_tally_map\<close> is not among the sources: it is
  the parameter \<open>upd\<close>, a change of the in-memory state.
\<close>

definition update_nonzero ::
  "(string \<Rightarrow> uint32 \<Rightarrow> 64 word \<Rightarrow> TallyType \<Rightarrow> 's \<Rightarrow> 's) \<Rightarrow>
   string \<Rightarrow> uint32 \<Rightarrow> 64 word \<Rightarrow> TallyType \<Rightarrow> 's \<Rightarrow> 's" where
  "update_nonzero upd strAddress propertyId amount ttype st =
     (if amount \<noteq> 0 then upd strAddress propertyId amount ttype st else st)"

fun input_properties ::
  "(string \<Rightarrow> uint32 \<Rightarrow> 64 word \<Rightarrow> TallyType \<Rightarrow> 's \<Rightarrow> 's) \<Rightarrow> string \<Rightarrow> string list \<Rightarrow> 's \<Rightarrow>
   's parse_result" where
  "input_properties upd strAddress [] st = Parsed st"
| "input_properties upd strAddress (p # ps) st =
     (if p = [] then input_properties upd strAddress ps st
      else case split_compress (is_any_of '':'') p of
        [cp0, cp1] \<Rightarrow>
          (case split_compress (is_any_of '','') cp1 of
             [cb0, cb1, cb2, cb3] \<Rightarrow>
               (case (lexical_cast_uint32 cp0, lexical_cast_int64 cb0, lexical_cast_int64 cb1,
                      lexical_cast_int64 cb2, lexical_cast_int64 cb3) of
                  (Some propertyId, Some b, Some s, Some a, Some m) \<Rightarrow>
                    input_properties upd strAddress ps
                      (update_nonzero upd strAddress propertyId m METADEX_RESERVE
                        (update_nonzero upd strAddress propertyId a ACCEPT_RESERVE
                          (update_nonzero upd strAddress propertyId s SELLOFFER_RESERVE
                            (update_nonzero upd strAddress propertyId b BALANCE st))))
                | _ \<Rightarrow> Thrown)
           | _ \<Rightarrow> ParseFailed st)
      | _ \<Rightarrow> ParseFailed st)"

definition input_msc_balances_string ::
  "(string \<Rightarrow> uint32 \<Rightarrow> 64 word \<Rightarrow> TallyType \<Rightarrow> 's \<Rightarrow> 's) \<Rightarrow> string \<Rightarrow> 's \<Rightarrow> 's parse_result" where
  "input_msc_balances_string upd s st =
     (case split_compress (is_any_of ''='') s of
        [strAddress, props] \<Rightarrow>
          input_properties upd strAddress (split_compress (is_any_of '';'') props) st
      | _ \<Rightarrow> ParseFailed st)"

subsection \<open>Writing and restoring a state file\<close>


text \<open>
  Opening a file for reading gives its text; opening it for writing empties it, or
  creates it.  \<open>write_state_file\<close> indexes \<open>statePrefix\<close> with \<open>what\<close> and is
  called with the six table numbers only.
\<close>

definition open_read :: "directory \<Rightarrow> string \<Rightarrow> string option" where
  "open_read dir path = map_option entry_text (find (\<lambda>e. entry_name e = path) dir)"

definition write_file :: "string \<Rightarrow> string \<Rightarrow> directory \<Rightarrow> directory" where
  "write_file path content dir =
     (if \<exists>e\<in>set dir. entry_name e = path
      then map (\<lambda>e. if entry_name e = path then e\<lparr>entry_text := content\<rparr> else e) dir
      else dir @ [\<lparr>entry_name = path, is_regular_file = True, entry_text = content\<rparr>])"




definition iequals :: "string \<Rightarrow> string \<Rightarrow> bool" where
  "iequals a b = (map ToLower a = map ToLower b)"






subsection \<open>A table that restores and verifies\<close>





subsection \<open>The tables of the in-memory state\<close>






subsection \<open>What the balances writer emits, said directly\<close>

text \<open>
  The entries of one tally that reach the file: the property ids up to the first 0,
  each with its four amounts, those with a non-zero amount.  The lines of the file: one
  for every address that has such an entry.
\<close>

definition emitted :: "CMPTally \<Rightarrow> (uint32 \<times> 64 word \<times> 64 word \<times> 64 word \<times> 64 word) list" where
  "emitted t =
     filter (\<lambda>(propertyId, b, s, a, m). \<not> (b = 0 \<and> s = 0 \<and> a = 0 \<and> m = 0))
       (map (\<lambda>propertyId. (propertyId, getMoney t propertyId BALANCE,
                getMoney t propertyId SELLOFFER_RESERVE, getMoney t propertyId ACCEPT_RESERVE,
                getMoney t propertyId METADEX_RESERVE))
          (takeWhile (\<lambda>propertyId. propertyId \<noteq> 0) (map fst t)))"



definition balance_line ::
  "string \<Rightarrow> (uint32 \<times> 64 word \<times> 64 word \<times> 64 word \<times> 64 word) list \<Rightarrow> string" where
  "balance_line address es =
     address @ ''='' @ concat (map (\<lambda>(propertyId, b, s, a, m). balance_entry propertyId b s a m) es)"

definition balance_lines :: "tally_map \<Rightarrow> string list" where
  "balance_lines tm =
     map (\<lambda>(address, t). balance_line address (emitted t))
       (filter (\<lambda>(address, t). emitted t \<noteq> []) tm)"

text \<open>The calls of \<open>update_tally_map\<close> a parser makes, kept as a list.\<close>

type_synonym tally_call = "string \<times> uint32 \<times> 64 word \<times> TallyType"

definition record_call :: "string \<Rightarrow> uint32 \<Rightarrow> 64 word \<Rightarrow> TallyType \<Rightarrow> tally_call list \<Rightarrow> tally_call list" where
  "record_call who propertyId amount ttype calls = calls @ [(who, propertyId, amount, ttype)]"

definition apply_calls ::
  "(string \<Rightarrow> uint32 \<Rightarrow> 64 word \<Rightarrow> TallyType \<Rightarrow> 's \<Rightarrow> 's) \<Rightarrow> tally_call list \<Rightarrow> 's \<Rightarrow> 's" where
  "apply_calls upd calls st = foldl (\<lambda>s (who, propertyId, amount, ttype). upd who propertyId amount ttype s) st calls"



definition map_parse_result :: "('a \<Rightarrow> 'b) \<Rightarrow> 'a parse_result \<Rightarrow> 'b parse_result" where
  "map_parse_result f r =
     (case r of Parsed x \<Rightarrow> Parsed (f x) | ParseFailed x \<Rightarrow> ParseFailed (f x) | Thrown \<Rightarrow> Thrown)"


subsection \<open>Lines that the restore loop passes to a parser\<close>


subsection \<open>An example tally map\<close>

text \<open>
  Two addresses: the first holds 5 units of property 1 and an entry of property 2
  with no amount; the second has only an entry with no amount.
\<close>

definition zero_tally :: PropertyTally where
  "zero_tally = \<lparr>balance = 0, sellReserved = 0, acceptReserved = 0, metadexReserved = 0\<rparr>"

definition example_tally_map :: tally_map where
  "example_tally_map =
     [(''1A'', [(1, zero_tally\<lparr>balance := 5\<rparr>), (2, zero_tally)]),
      (''1B'', [(3, zero_tally)])]"

subsection \<open>An example of the parameters\<close>





subsection \<open>An example state and its balances file\<close>






subsection \<open>An example store\<close>



section \<open>Properties of the store and of prefix scans\<close>

lemmas key_defs =
  CBlockTxKey_def CTxKey_def CPaymentTxKey_def CDexCancelTxKey_def CDexTxToCancelKey_def
  CSendAllTxKey_def CDBVersionKey_def CNonFugibleKey_def

lemmas prefix_defs =
  prefix_b_def prefix_t_def prefix_p_def prefix_c_def prefix_e_def prefix_s_def

subsection \<open>Inverted fields sort downwards\<close>

lemma unat_NOT: "unat (NOT p) = 2 ^ LENGTH('a) - 1 - unat (p :: 'a::len word)"
proof -
  have "NOT p = - 1 - p" by (simp add: not_eq_complement)
  moreover have "unat (- 1 - p) = unat (- 1 :: 'a word) - unat p"
    by (rule unat_sub) simp
  moreover have "unat (- 1 :: 'a word) = 2 ^ LENGTH('a) - 1"
    by (simp add: unsigned_minus_1_eq_mask mask_eq_exp_minus_1)
  ultimately show ?thesis by simp
qed

lemma unat_NOT_le: "unat (NOT p) \<le> unat (NOT q) \<longleftrightarrow> q \<le> (p :: 'a::len word)"
proof -
  have "unat p < 2 ^ LENGTH('a)" "unat q < 2 ^ LENGTH('a)" by simp_all
  then show ?thesis
    unfolding unat_NOT word_le_nat_alt by linarith
qed

lemma unat_NOT_less: "unat (NOT p) < unat (NOT q) \<longleftrightarrow> q < (p :: 'a::len word)"
proof -
  have "unat p < 2 ^ LENGTH('a)" "unat q < 2 ^ LENGTH('a)" by simp_all
  then show ?thesis
    unfolding unat_NOT word_less_nat_alt by linarith
qed

subsection \<open>A non-negative int read as unsigned\<close>

lemma take_bit_no_top:
  fixes k :: int
  assumes "0 \<le> k" "k < 2 ^ Suc n" "\<not> bit k n"
  shows "take_bit n k = k"
proof -
  have "take_bit (Suc n) k = k" using assms(1,2) by (rule take_bit_int_eq_self)
  moreover have "take_bit (Suc n) k = take_bit n k"
    using assms(3) by (simp add: take_bit_Suc_from_most)
  ultimately show ?thesis by simp
qed

lemma nonneg_sint_uint:
  assumes "0 \<le> sint (a :: 'a::len word)"
  shows "sint a = uint a"
proof -
  let ?n = "LENGTH('a) - Suc 0"
  have L: "LENGTH('a) = Suc ?n" by simp
  from assms have nb: "\<not> bit (uint a) ?n" by (simp add: sint_uint)
  then have "sint a = take_bit ?n (uint a)"
    by (simp add: sint_uint signed_take_bit_eq_if_positive)
  moreover have "uint a < 2 ^ Suc ?n" by (metis L uint_lt2p)
  then have "take_bit ?n (uint a) = uint a"
    using nb by (intro take_bit_no_top) simp_all
  ultimately show ?thesis by simp
qed

lemma nonneg_sint_le_uint:
  "0 \<le> sint (a :: 'a::len word) \<Longrightarrow> (sint a \<le> uint b \<longleftrightarrow> a \<le> b)"
  by (simp add: nonneg_sint_uint word_le_def)

lemma nonneg_uint_le_sint:
  "0 \<le> sint (a :: 'a::len word) \<Longrightarrow> (uint b \<le> sint a \<longleftrightarrow> b \<le> a)"
  by (simp add: nonneg_sint_uint word_le_def)

subsection \<open>Partial keys and the key order\<close>

lemma prefix_le_append: "(xs :: nat list) \<le> xs @ ys"
  by (induction xs) auto

lemma has_prefix_ge: "has_prefix pk r \<Longrightarrow> pk \<le> row_key r"
  unfolding has_prefix_def
  by (metis append_take_drop_id prefix_le_append)

text \<open>A key between a partial key and one of its extensions extends it too.\<close>

lemma prefix_squeeze:
  "(pk :: nat list) \<le> k \<Longrightarrow> k \<le> k' \<Longrightarrow> take (length pk) k' = pk \<Longrightarrow>
   take (length pk) k = pk"
proof (induction pk arbitrary: k k')
  case Nil
  then show ?case by simp
next
  case (Cons a p)
  from Cons.prems(3) obtain k2 where k': "k' = a # k2" and t2: "take (length p) k2 = p"
    by (cases k') auto
  from Cons.prems(1) obtain b kk where k: "k = b # kk"
    by (cases k) auto
  from Cons.prems(1) k have 1: "a < b \<or> a = b \<and> p \<le> kk" by simp
  from Cons.prems(2) k k' have 2: "b < a \<or> b = a \<and> kk \<le> k2" by simp
  from 1 2 have ab: "a = b" and "p \<le> kk" "kk \<le> k2" by auto
  then have "take (length p) kk = p" using Cons.IH t2 by blast
  with ab k show ?case by simp
qed

lemma key_trichotomy:
  obtains "row_key r < row_key x" | "row_key r = row_key x" | "row_key x < row_key r"
  using linorder_less_linear by blast

lemma seek_rows_filter:
  "db_sorted d \<Longrightarrow> seek_rows k d = filter (\<lambda>r. \<not> row_key r < k) d"
  unfolding db_sorted_def seek_rows_def
proof (induction d)
  case Nil
  then show ?case by simp
next
  case (Cons x xs)
  show ?case
  proof (cases "row_key x < k")
    case True
    with Cons show ?thesis by simp
  next
    case False
    from Cons.prems have "\<forall>y\<in>set xs. row_key x < row_key y" by simp
    with False have "\<forall>y\<in>set xs. \<not> row_key y < k" by (meson less_trans)
    then have "filter (\<lambda>r. \<not> row_key r < k) xs = xs" by (simp add: filter_id_conv)
    with False show ?thesis by simp
  qed
qed

lemma seek_rows_sorted:
  "db_sorted d \<Longrightarrow> sorted_wrt (\<lambda>r s. row_key r < row_key s) (seek_rows k d)"
  by (simp add: seek_rows_filter) (simp add: db_sorted_def sorted_wrt_filter)

lemma takeWhile_prefix_filter:
  "sorted_wrt (\<lambda>r s. row_key r < row_key s) d \<Longrightarrow> \<forall>r\<in>set d. pk \<le> row_key r \<Longrightarrow>
   takeWhile (has_prefix pk) d = filter (has_prefix pk) d"
proof (induction d)
  case Nil
  then show ?case by simp
next
  case (Cons x xs)
  show ?case
  proof (cases "has_prefix pk x")
    case True
    with Cons show ?thesis by simp
  next
    case False
    have "\<not> has_prefix pk y" if "y \<in> set xs" for y
    proof
      assume hy: "has_prefix pk y"
      from Cons.prems that have "row_key x \<le> row_key y" by auto
      moreover from Cons.prems have "pk \<le> row_key x" by simp
      ultimately have "take (length pk) (row_key x) = pk"
        using hy prefix_squeeze unfolding has_prefix_def by blast
      with False show False by (simp add: has_prefix_def)
    qed
    then have "filter (has_prefix pk) xs = []" by (simp add: filter_empty_conv)
    with False show ?thesis by simp
  qed
qed

text \<open>
  The guarantee every query relies on: a scan from a partial key meets exactly the rows
  under that partial key, in key order.
\<close>

lemma prefix_scan:
  assumes "db_sorted d"
  shows "takeWhile (has_prefix pk) (seek_rows pk d) = filter (has_prefix pk) d"
proof -
  have s: "seek_rows pk d = filter (\<lambda>r. \<not> row_key r < pk) d"
    using assms by (rule seek_rows_filter)
  have "\<forall>r\<in>set (seek_rows pk d). pk \<le> row_key r"
    unfolding s by auto
  with seek_rows_sorted [OF assms]
  have "takeWhile (has_prefix pk) (seek_rows pk d) = filter (has_prefix pk) (seek_rows pk d)"
    by (rule takeWhile_prefix_filter)
  also have "\<dots> = filter (has_prefix pk) d"
    unfolding s filter_filter
    by (rule filter_cong) (auto dest: has_prefix_ge)
  finally show ?thesis .
qed

lemma seek_partial_first:
  assumes "db_sorted d" "snapshot it = d"
  shows "case filter (has_prefix pk) d of
           [] \<Rightarrow> \<not> Valid (Seek_partial pk it)
         | r # F \<Rightarrow> Valid (Seek_partial pk it) \<and> (\<exists>rs. cursor (Seek_partial pk it) = r # rs)"
proof -
  have ps: "filter (has_prefix pk) d = takeWhile (has_prefix pk) (seek_rows pk d)"
    using assms(1) by (simp add: prefix_scan)
  show ?thesis
  proof (cases "seek_rows pk d")
    case Nil
    then show ?thesis using assms(2) by (simp add: ps Valid_def Seek_partial_def)
  next
    case (Cons x xs)
    then show ?thesis using assms(2)
      by (cases "has_prefix pk x") (simp_all add: ps Valid_def Seek_partial_def)
  qed
qed

lemma filter_first_min:
  assumes "db_sorted d" "filter P d = r # F" "r' \<in> set d" "P r'"
  shows "row_key r \<le> row_key r'"
proof -
  have "sorted_wrt (\<lambda>r s. row_key r < row_key s) (filter P d)"
    using assms(1) by (simp add: db_sorted_def sorted_wrt_filter)
  then have "\<forall>y\<in>set F. row_key r < row_key y" by (simp add: assms(2))
  moreover have "r' \<in> set (r # F)" using assms(3,4) assms(2) [symmetric] by simp
  ultimately show ?thesis by auto
qed

lemma Max_eqI2: "finite A \<Longrightarrow> a \<in> A \<Longrightarrow> (\<And>b. b \<in> A \<Longrightarrow> b \<le> a) \<Longrightarrow> Max A = a"
  by (rule Max_eqI) auto

subsection \<open>Which rows a partial key selects\<close>

lemma hp_block: "has_prefix [98] r \<longleftrightarrow> (\<exists>b t. r = BlockTx b t)"
  by (cases r) (auto simp: has_prefix_def key_defs)

lemma hp_tx:
  "has_prefix (PartialKey prefix_t txid) r \<longleftrightarrow> (\<exists>b v ty n. r = Tx txid b v ty n)"
  by (cases r) (auto simp: has_prefix_def PartialKey_def prefix_t_def key_defs word_unat_eq_iff)

lemma hp_payment:
  "has_prefix (PartialKey prefix_p txid) r \<longleftrightarrow> (\<exists>p b v pv. r = PaymentTx txid p b v pv)"
  by (cases r) (auto simp: has_prefix_def PartialKey_def prefix_p_def key_defs word_unat_eq_iff)

lemma hp_cancel:
  "has_prefix (PartialKey prefix_c txid) r \<longleftrightarrow> (\<exists>n b v p a. r = DexCancelTx txid n b v p a)"
  by (cases r) (auto simp: has_prefix_def PartialKey_def prefix_c_def key_defs word_unat_eq_iff)

lemma hp_link:
  "has_prefix (PartialKey prefix_e txid) r \<longleftrightarrow> (\<exists>c. r = DexTxToCancel txid c)"
  by (cases r) (auto simp: has_prefix_def PartialKey_def prefix_e_def key_defs word_unat_eq_iff)

lemma hp_sendall:
  "has_prefix (PartialKey prefix_s txid) r \<longleftrightarrow> (\<exists>n p a. r = SendAllTx txid n p a)"
  by (cases r) (auto simp: has_prefix_def PartialKey_def prefix_s_def key_defs word_unat_eq_iff)

lemma hp_links: "has_prefix [101] r \<longleftrightarrow> (\<exists>t c. r = DexTxToCancel t c)"
  by (cases r) (auto simp: has_prefix_def key_defs)

subsection \<open>Writing keeps the order\<close>

lemma set_Write_aux:
  "sorted_wrt (\<lambda>r s. row_key r < row_key s) d \<Longrightarrow>
   set (Write r d) = insert r {x \<in> set d. row_key x \<noteq> row_key r}"
proof (induction d)
  case Nil
  then show ?case by simp
next
  case (Cons x xs)
  then have lt: "\<forall>y\<in>set xs. row_key x < row_key y"
    and IH: "set (Write r xs) = insert r {x \<in> set xs. row_key x \<noteq> row_key r}"
    by simp_all
  show ?case
  proof (rule key_trichotomy [of r x])
    assume 1: "row_key r < row_key x"
    have "row_key y \<noteq> row_key r" if "y \<in> set xs" for y
      using lt that 1 by (metis less_asym)
    then have "{y \<in> set xs. row_key y \<noteq> row_key r} = set xs" by blast
    moreover have "row_key x \<noteq> row_key r" using 1 by simp
    ultimately have "{y \<in> set (x # xs). row_key y \<noteq> row_key r} = insert x (set xs)" by auto
    then show ?thesis using 1 by simp
  next
    assume 2: "row_key r = row_key x"
    have "row_key y \<noteq> row_key r" if "y \<in> set xs" for y
      using lt that 2 by (metis less_irrefl)
    then have "{y \<in> set xs. row_key y \<noteq> row_key r} = set xs" by blast
    then have "{y \<in> set (x # xs). row_key y \<noteq> row_key r} = set xs" using 2 by auto
    then show ?thesis using 2 by simp
  next
    assume 3: "row_key x < row_key r"
    then have n: "\<not> row_key r < row_key x" "row_key r \<noteq> row_key x" by auto
    have "{y \<in> set (x # xs). row_key y \<noteq> row_key r} =
      insert x {y \<in> set xs. row_key y \<noteq> row_key r}"
      using n by auto
    then show ?thesis using n IH by (simp add: insert_commute)
  qed
qed

lemma set_Write:
  "db_sorted d \<Longrightarrow> set (Write r d) = insert r {x \<in> set d. row_key x \<noteq> row_key r}"
  unfolding db_sorted_def by (rule set_Write_aux)

lemma sorted_Write: "db_sorted d \<Longrightarrow> db_sorted (Write r d)"
proof (induction d)
  case Nil
  then show ?case by (simp add: db_sorted_def)
next
  case (Cons x xs)
  then have sx: "db_sorted xs" and lt: "\<forall>y\<in>set xs. row_key x < row_key y"
    by (simp_all add: db_sorted_def)
  show ?case
  proof (rule key_trichotomy [of r x])
    assume 1: "row_key r < row_key x"
    have "row_key r < row_key y" if "y \<in> set xs" for y
      using lt that 1 by (metis less_trans)
    then show ?thesis using 1 Cons.prems by (simp add: db_sorted_def)
  next
    assume 2: "row_key r = row_key x"
    then show ?thesis using Cons.prems by (simp add: db_sorted_def)
  next
    assume 3: "row_key x < row_key r"
    then have n: "\<not> row_key r < row_key x" "row_key r \<noteq> row_key x" by auto
    have "db_sorted (Write r xs)" using Cons.IH sx by simp
    moreover have "\<forall>y\<in>set (Write r xs). row_key x < row_key y"
      using lt 3 by (simp add: set_Write [OF sx])
    ultimately show ?thesis using n by (simp add: db_sorted_def)
  qed
qed

section \<open>Sub-record counts\<close>

lemmas eval_defs =
  recordTX_def recordPaymentTX_def recordSendAllSubRecord_def recordMetaDExCancelTX_def
  bool_to_uint8_def Seek_partial_def Seek_key_def NewIterator_def seek_rows_def Valid_def
  has_prefix_def PartialKey_def prefix_defs key_defs

lemma scenario_db_rows:
  "scenario_db =
     [BlockTx 100 7,
      PaymentTx 7 2 100 1 \<lparr>pv_vout = 2, pv_buyer = ''buyer'', pv_seller = ''seller'',
        pv_propertyId = 1, pv_amount = 30\<rparr>,
      PaymentTx 7 1 100 1 \<lparr>pv_vout = 1, pv_buyer = ''buyer'', pv_seller = ''seller'',
        pv_propertyId = 1, pv_amount = 25\<rparr>,
      Tx 7 100 1 0 50]"
  by (simp add: scenario_db_def eval_defs)

lemma scenario_db_sorted: "db_sorted scenario_db"
  by (simp add: scenario_db_rows db_sorted_def key_defs)

text \<open>
  C10: for a transaction id, \<open>getNumberOfSubRecords\<close> returns the highest payment
  sub-record number when the transaction has a payment sub-record; otherwise the highest
  send-all sub-record number when it has a send-all sub-record; otherwise 0.  Payment
  sub-records shadow send-all sub-records.
\<close>

theorem C10_getNumberOfSubRecords:
  assumes "db_sorted d"
  shows "getNumberOfSubRecords d txid =
    (if \<exists>p b v pv. PaymentTx txid p b v pv \<in> set d
       then Max {p. \<exists>b v pv. PaymentTx txid p b v pv \<in> set d}
     else if \<exists>n q a. SendAllTx txid n q a \<in> set d
       then Max {n. \<exists>q a. SendAllTx txid n q a \<in> set d}
     else 0)"
proof -
  let ?pp = "PartialKey prefix_p txid" and ?ps = "PartialKey prefix_s txid"
  let ?it = "Seek_partial ?pp (NewIterator d)"
  have snap: "snapshot (NewIterator d) = d" "snapshot ?it = d"
    by (simp_all add: NewIterator_def Seek_partial_def)
  show ?thesis
  proof (cases "filter (has_prefix ?pp) d")
    case (Cons r F)
    then have "r \<in> set (filter (has_prefix ?pp) d)" by simp
    then have rin: "r \<in> set d" and "has_prefix ?pp r" by simp_all
    then obtain p b v pv where r: "r = PaymentTx txid p b v pv" by (auto simp: hp_payment)
    from seek_partial_first [OF assms snap(1), of ?pp] Cons
    obtain rs where V: "Valid ?it" "cursor ?it = r # rs" by auto
    then have res: "getNumberOfSubRecords d txid = p"
      by (simp add: getNumberOfSubRecords_def r)
    have "p' \<le> p" if "PaymentTx txid p' b' v' pv' \<in> set d" for p' b' v' pv'
    proof -
      have "row_key r \<le> row_key (PaymentTx txid p' b' v' pv')"
        using assms Cons that by (rule filter_first_min) (simp add: hp_payment)
      then have "unat (NOT p) \<le> unat (NOT p')"
        by (auto simp: r CPaymentTxKey_def)
      then show ?thesis by (simp add: unat_NOT_le)
    qed
    moreover have "p \<in> {p. \<exists>b v pv. PaymentTx txid p b v pv \<in> set d}"
      using rin r by auto
    ultimately have "Max {p. \<exists>b v pv. PaymentTx txid p b v pv \<in> set d} = p"
      by (intro Max_eqI2) auto
    with res rin r show ?thesis by auto
  next
    case Nil
    then have nop: "\<not> (\<exists>p b v pv. PaymentTx txid p b v pv \<in> set d)"
      by (auto simp: filter_empty_conv hp_payment)
    from seek_partial_first [OF assms snap(1), of ?pp] Nil
    have nV: "\<not> Valid ?it" by simp
    show ?thesis
    proof (cases "filter (has_prefix ?ps) d")
      case (Cons r F)
      then have "r \<in> set (filter (has_prefix ?ps) d)" by simp
      then have rin: "r \<in> set d" and "has_prefix ?ps r" by simp_all
      then obtain n q a where r: "r = SendAllTx txid n q a" by (auto simp: hp_sendall)
      from seek_partial_first [OF assms snap(2), of ?ps] Cons
      obtain rs where V: "Valid (Seek_partial ?ps ?it)" "cursor (Seek_partial ?ps ?it) = r # rs"
        by auto
      with nV have res: "getNumberOfSubRecords d txid = n"
        by (simp add: getNumberOfSubRecords_def r)
      have "n' \<le> n" if "SendAllTx txid n' q' a' \<in> set d" for n' q' a'
      proof -
        have "row_key r \<le> row_key (SendAllTx txid n' q' a')"
          using assms Cons that by (rule filter_first_min) (simp add: hp_sendall)
        then have "unat (NOT n) \<le> unat (NOT n')"
          by (auto simp: r CSendAllTxKey_def)
        then show ?thesis by (simp add: unat_NOT_le)
      qed
      moreover have "n \<in> {n. \<exists>q a. SendAllTx txid n q a \<in> set d}"
        using rin r by auto
      ultimately have "Max {n. \<exists>q a. SendAllTx txid n q a \<in> set d} = n"
        by (intro Max_eqI2) auto
      with res rin r nop show ?thesis by auto
    next
      case Nil
      then have nos: "\<not> (\<exists>n q a. SendAllTx txid n q a \<in> set d)"
        by (auto simp: filter_empty_conv hp_sendall)
      from seek_partial_first [OF assms snap(2), of ?ps] Nil
      have "\<not> Valid (Seek_partial ?ps ?it)" by simp
      with nV have "getNumberOfSubRecords d txid = 0"
        by (simp add: getNumberOfSubRecords_def)
      with nop nos show ?thesis by simp
    qed
  qed
qed

theorem C10_getNumberOfSubRecords_witness:
  "db_sorted scenario_db \<and>
   getNumberOfSubRecords scenario_db 7 = Max {p. \<exists>b v pv. PaymentTx 7 p b v pv \<in> set scenario_db} \<and>
   getNumberOfSubRecords scenario_db 7 = 2"
proof -
  have e: "\<exists>p b v pv. PaymentTx 7 p b v pv \<in> set scenario_db"
    by (simp add: scenario_db_rows) blast
  have "getNumberOfSubRecords scenario_db 7 = 2"
    by (simp add: scenario_db_rows getNumberOfSubRecords_def eval_defs)
  with C10_getNumberOfSubRecords [OF scenario_db_sorted, of 7] e scenario_db_sorted
  show ?thesis by simp
qed

section \<open>Transactions of a block range\<close>

lemma GetOmniTxs_loop_sorted:
  "sorted_wrt (\<lambda>r s. row_key r < row_key s) L \<Longrightarrow> \<forall>r\<in>set L. [98] \<le> row_key r \<Longrightarrow>
   GetOmniTxs_loop [98] blockFirst L retTxs =
     retTxs \<union> {t. \<exists>b. BlockTx b t \<in> set L \<and> blockFirst \<le> b}"
proof (induction L arbitrary: retTxs)
  case Nil
  then show ?case by simp
next
  case (Cons r rs)
  then have lt: "\<forall>y\<in>set rs. row_key r < row_key y" by simp
  show ?case
  proof (cases "has_prefix [98] r")
    case False
    have "\<not> has_prefix [98] y" if "y \<in> set rs" for y
    proof
      assume hy: "has_prefix [98] y"
      from lt that have "row_key r \<le> row_key y" by auto
      moreover from Cons.prems have "[98] \<le> row_key r" by simp
      ultimately have "take (length [98::nat]) (row_key r) = [98]"
        using hy prefix_squeeze unfolding has_prefix_def by blast
      with False show False by (simp add: has_prefix_def)
    qed
    then have "\<forall>b t. BlockTx b t \<notin> set rs" using hp_block by blast
    moreover from False have "\<forall>b t. r \<noteq> BlockTx b t" using hp_block by blast
    ultimately show ?thesis using False by auto
  next
    case True
    then obtain b t where r: "r = BlockTx b t" using hp_block by blast
    show ?thesis
    proof (cases "b < blockFirst")
      case True
      have "\<not> blockFirst \<le> b'" if "BlockTx b' t' \<in> set rs" for b' t'
      proof -
        from lt that have "row_key r < row_key (BlockTx b' t')" by blast
        then have "unat (NOT b) \<le> unat (NOT b')" by (auto simp: r CBlockTxKey_def)
        then have "b' \<le> b" by (simp add: unat_NOT_le)
        with True show ?thesis by simp
      qed
      with True r \<open>has_prefix [98] r\<close> show ?thesis by auto
    next
      case False
      have "GetOmniTxs_loop [98] blockFirst rs (insert t retTxs) =
        insert t retTxs \<union> {t. \<exists>b. BlockTx b t \<in> set rs \<and> blockFirst \<le> b}"
        using Cons by simp
      with False r \<open>has_prefix [98] r\<close> show ?thesis by auto
    qed
  qed
qed

lemma block_seek_rows:
  assumes "db_sorted d"
  shows "\<forall>r\<in>set (seek_rows (CBlockTxKey blockLast 0) d). [98] \<le> row_key r"
    and "BlockTx b t \<in> set (seek_rows (CBlockTxKey blockLast 0) d) \<longleftrightarrow>
         BlockTx b t \<in> set d \<and> b \<le> blockLast"
proof -
  let ?K = "CBlockTxKey blockLast 0"
  have s: "seek_rows ?K d = filter (\<lambda>r. \<not> row_key r < ?K) d"
    using assms by (rule seek_rows_filter)
  show "\<forall>r\<in>set (seek_rows ?K d). [98] \<le> row_key r"
  proof
    fix r assume "r \<in> set (seek_rows ?K d)"
    then have "?K \<le> row_key r" by (simp add: s not_less)
    moreover have "[98] \<le> ?K" by (simp add: CBlockTxKey_def)
    ultimately show "[98] \<le> row_key r" by (rule order_trans [rotated])
  qed
  have "\<not> row_key (BlockTx b t) < ?K \<longleftrightarrow> unat (NOT blockLast) \<le> unat (NOT b)"
    by (auto simp: CBlockTxKey_def)
  then show "BlockTx b t \<in> set (seek_rows ?K d) \<longleftrightarrow> BlockTx b t \<in> set d \<and> b \<le> blockLast"
    by (auto simp: s unat_NOT_le)
qed

text \<open>The scan in the unsigned reading of the two bounds, for any set to add to.\<close>

lemma GetOmniTxs_unsigned:
  assumes "db_sorted d"
  shows "snd (GetOmniTxsInBlockRange d blockFirst blockLast retTxs) =
     retTxs \<union> {t. \<exists>b. BlockTx b t \<in> set d \<and> blockFirst \<le> b \<and> b \<le> blockLast}"
proof -
  let ?K = "CBlockTxKey blockLast 0"
  have "snd (GetOmniTxsInBlockRange d blockFirst blockLast retTxs) =
    GetOmniTxs_loop [98] blockFirst (seek_rows ?K d) retTxs"
    by (simp add: GetOmniTxsInBlockRange_def Seek_key_def NewIterator_def Let_def CBlockTxKey_def)
  also have "\<dots> = retTxs \<union> {t. \<exists>b. BlockTx b t \<in> set (seek_rows ?K d) \<and> blockFirst \<le> b}"
    using seek_rows_sorted [OF assms] block_seek_rows(1) [OF assms]
    by (rule GetOmniTxs_loop_sorted)
  finally show ?thesis by (auto simp: block_seek_rows(2) [OF assms])
qed

lemma range_db_rows:
  "range_db = [BlockTx 106 3, BlockTx 103 2, BlockTx 100 1, Tx 1 100 1 0 10, Tx 2 103 1 0 20,
     Tx 3 106 1 0 30]"
  by (simp add: range_db_def eval_defs)

text \<open>
  C5: for heights \<open>first \<le> last\<close>, \<open>GetOmniTxsInBlockRange\<close> called with an empty
  result set returns exactly the transaction ids that have a block-index row at a height
  \<open>h\<close> with \<open>first \<le> h \<le> last\<close>, both bounds inclusive, together with their
  number.  The scan starts at \<open>last\<close> and runs down the block-index schema; after
  recording at the heights 100, 103 and 106 the range 100 to 105 gives the transactions
  of 100 and 103.
\<close>

theorem C5_GetOmniTxsInBlockRange:
  assumes "db_sorted d" and "0 \<le> sint blockFirst" and "sint blockFirst \<le> sint blockLast"
  shows "GetOmniTxsInBlockRange d blockFirst blockLast {} =
    (card {txid. \<exists>b. BlockTx b txid \<in> set d \<and> sint blockFirst \<le> uint b \<and> uint b \<le> sint blockLast},
     {txid. \<exists>b. BlockTx b txid \<in> set d \<and> sint blockFirst \<le> uint b \<and> uint b \<le> sint blockLast})"
proof -
  from assms(2,3) have l: "0 \<le> sint blockLast" by simp
  have "snd (GetOmniTxsInBlockRange d blockFirst blockLast {}) =
    {t. \<exists>b. BlockTx b t \<in> set d \<and> blockFirst \<le> b \<and> b \<le> blockLast}"
    using GetOmniTxs_unsigned [OF assms(1), of blockFirst blockLast "{}"] by simp
  also have "\<dots> = {t. \<exists>b. BlockTx b t \<in> set d \<and> sint blockFirst \<le> uint b \<and> uint b \<le> sint blockLast}"
    by (simp add: nonneg_sint_le_uint [OF assms(2)] nonneg_uint_le_sint [OF l])
  finally have "snd (GetOmniTxsInBlockRange d blockFirst blockLast {}) =
    {t. \<exists>b. BlockTx b t \<in> set d \<and> sint blockFirst \<le> uint b \<and> uint b \<le> sint blockLast}" .
  moreover have "fst (GetOmniTxsInBlockRange d blockFirst blockLast {}) =
    card (snd (GetOmniTxsInBlockRange d blockFirst blockLast {}))"
    by (simp add: GetOmniTxsInBlockRange_def Let_def)
  ultimately show ?thesis by (simp add: prod_eq_iff)
qed

theorem C5_GetOmniTxsInBlockRange_witness:
  "db_sorted range_db \<and> 0 \<le> sint (100 :: cint) \<and> sint (100 :: cint) \<le> sint (105 :: cint) \<and>
   GetOmniTxsInBlockRange range_db 100 105 {} = (2, {1, 2})"
proof -
  have s: "db_sorted range_db"
    by (simp add: range_db_rows db_sorted_def key_defs)
  have a: "0 \<le> sint (100 :: cint)" and b: "sint (100 :: cint) \<le> sint (105 :: cint)"
    by simp_all
  have "{txid. \<exists>b. BlockTx b txid \<in> set range_db \<and> sint (100 :: cint) \<le> uint b \<and>
      uint b \<le> sint (105 :: cint)} = {1, 2}"
    by (auto simp: range_db_rows)
  with C5_GetOmniTxsInBlockRange [OF s a b] s show ?thesis by simp
qed

section \<open>Recording sub-records\<close>

lemma payment_seek:
  fixes txid :: uint256
  assumes "db_sorted d" "snapshot it = d"
  defines "it' \<equiv> Seek_partial (PartialKey prefix_p txid) it"
  shows "(\<not> Valid it' \<and> \<not> (\<exists>p b v pv. PaymentTx txid p b v pv \<in> set d)) \<or>
    (\<exists>p b v pv rs. Valid it' \<and> cursor it' = PaymentTx txid p b v pv # rs \<and>
       PaymentTx txid p b v pv \<in> set d \<and>
       Max {p. \<exists>b v pv. PaymentTx txid p b v pv \<in> set d} = p)"
proof (cases "filter (has_prefix (PartialKey prefix_p txid)) d")
  case Nil
  then have "\<not> (\<exists>p b v pv. PaymentTx txid p b v pv \<in> set d)"
    by (auto simp: filter_empty_conv hp_payment)
  moreover from seek_partial_first [OF assms(1,2), of "PartialKey prefix_p txid"] Nil
  have "\<not> Valid it'" by (simp add: it'_def)
  ultimately show ?thesis by simp
next
  case (Cons r F)
  let ?pp = "PartialKey prefix_p txid"
  from Cons have "r \<in> set (filter (has_prefix ?pp) d)" by simp
  then have rin: "r \<in> set d" and "has_prefix ?pp r" by simp_all
  then obtain p b v pv where r: "r = PaymentTx txid p b v pv" by (auto simp: hp_payment)
  from seek_partial_first [OF assms(1,2), of ?pp] Cons
  obtain rs where V: "Valid it'" "cursor it' = r # rs" by (auto simp: it'_def)
  have "p' \<le> p" if "PaymentTx txid p' b' v' pv' \<in> set d" for p' b' v' pv'
  proof -
    have "row_key r \<le> row_key (PaymentTx txid p' b' v' pv')"
      using assms(1) Cons that by (rule filter_first_min) (simp add: hp_payment)
    then have "unat (NOT p) \<le> unat (NOT p')"
      by (auto simp: r CPaymentTxKey_def)
    then show ?thesis by (simp add: unat_NOT_le)
  qed
  moreover have "p \<in> {p. \<exists>b v pv. PaymentTx txid p b v pv \<in> set d}"
    using rin r by auto
  ultimately have M: "Max {p. \<exists>b v pv. PaymentTx txid p b v pv \<in> set d} = p"
    by (intro Max_eqI2) auto
  have "Valid it' \<and> cursor it' = PaymentTx txid p b v pv # rs \<and>
       PaymentTx txid p b v pv \<in> set d \<and>
       Max {p. \<exists>b v pv. PaymentTx txid p b v pv \<in> set d} = p"
    using V rin M unfolding r by simp
  then show ?thesis by (intro disjI2 exI)
qed

lemma insert_filter_twice:
  "f a \<noteq> f b \<Longrightarrow>
   {x \<in> insert b {x \<in> S. f x \<noteq> f b}. f x \<noteq> f a} =
   insert b {r \<in> S. f r \<noteq> f a \<and> f r \<noteq> f b}"
  by auto

lemma set_Write2:
  assumes "db_sorted d" "row_key a \<noteq> row_key b"
  shows "set (Write a (Write b d)) =
    {a, b} \<union> {r \<in> set d. row_key r \<noteq> row_key a \<and> row_key r \<noteq> row_key b}"
proof -
  have 1: "set (Write a (Write b d)) = insert a {x \<in> set (Write b d). row_key x \<noteq> row_key a}"
    using sorted_Write [OF assms(1)] by (rule set_Write)
  have 2: "set (Write b d) = insert b {x \<in> set d. row_key x \<noteq> row_key b}"
    using assms(1) by (rule set_Write)
  have "{x \<in> insert b {x \<in> set d. row_key x \<noteq> row_key b}. row_key x \<noteq> row_key a} =
    insert b {r \<in> set d. row_key r \<noteq> row_key a \<and> row_key r \<noteq> row_key b}"
    using assms(2) by (rule insert_filter_twice)
  then show ?thesis unfolding 1 2 by simp
qed

text \<open>
  C4, as the code has it: \<open>recordPaymentTX\<close> gives the new payment sub-record the
  number one above the highest payment sub-record number stored for the transaction (in
  32-bit unsigned arithmetic; 1 when there is none), found as the first row under the
  payment prefix of the transaction id, and writes the block-index row and the
  sub-record.  \<open>recordSendAllSubRecord\<close> writes the send-all sub-record under the
  number its caller passes, and the block-index row.  Every row under another key stays.
\<close>

theorem C4_record_sub_records:
  assumes "db_sorted d"
  shows "(let n = (if \<exists>p b v pv. PaymentTx txid p b v pv \<in> set d
                   then Max {p. \<exists>b v pv. PaymentTx txid p b v pv \<in> set d} + 1 else 1);
              sub = PaymentTx txid n nBlock (bool_to_uint8 fValid)
                      \<lparr>pv_vout = vout, pv_buyer = buyer, pv_seller = seller,
                       pv_propertyId = propertyId, pv_amount = nValue\<rparr>;
              d' = recordPaymentTX d txid fValid nBlock vout propertyId nValue buyer seller
          in db_sorted d' \<and>
             set d' = {sub, BlockTx nBlock txid} \<union>
               {r \<in> set d. row_key r \<noteq> row_key sub \<and> row_key r \<noteq> row_key (BlockTx nBlock txid)}) \<and>
         (let sub = SendAllTx txid subRecordNumber propertyId2 nValue2;
              d' = recordSendAllSubRecord d txid nBlock subRecordNumber propertyId2 nValue2
          in db_sorted d' \<and>
             set d' = {sub, BlockTx nBlock txid} \<union>
               {r \<in> set d. row_key r \<noteq> row_key sub \<and> row_key r \<noteq> row_key (BlockTx nBlock txid)})"
proof -
  let ?n = "if \<exists>p b v pv. PaymentTx txid p b v pv \<in> set d
            then Max {p. \<exists>b v pv. PaymentTx txid p b v pv \<in> set d} + 1 else 1"
  let ?pv = "\<lparr>pv_vout = vout, pv_buyer = buyer, pv_seller = seller,
              pv_propertyId = propertyId, pv_amount = nValue\<rparr>"
  let ?sub = "PaymentTx txid ?n nBlock (bool_to_uint8 fValid) ?pv"
  let ?blk = "BlockTx nBlock txid"
  have snap: "snapshot (NewIterator d) = d" by (simp add: NewIterator_def)
  have rp: "recordPaymentTX d txid fValid nBlock vout propertyId nValue buyer seller =
    Write ?sub (Write ?blk d)"
    using payment_seek [OF assms snap, of txid]
    by (auto simp: recordPaymentTX_def Let_def)
  have k1: "row_key ?sub \<noteq> row_key ?blk" by (simp add: key_defs)
  have 1: "db_sorted (Write ?sub (Write ?blk d))"
    using assms by (intro sorted_Write)
  have 2: "set (Write ?sub (Write ?blk d)) = {?sub, ?blk} \<union>
      {r \<in> set d. row_key r \<noteq> row_key ?sub \<and> row_key r \<noteq> row_key ?blk}"
    using assms k1 by (rule set_Write2)
  let ?sa = "SendAllTx txid subRecordNumber propertyId2 nValue2"
  have k2: "row_key ?blk \<noteq> row_key ?sa" by (simp add: key_defs)
  have 3: "db_sorted (Write ?blk (Write ?sa d))"
    using assms by (intro sorted_Write)
  have 4: "set (Write ?blk (Write ?sa d)) = {?sa, ?blk} \<union>
      {r \<in> set d. row_key r \<noteq> row_key ?sa \<and> row_key r \<noteq> row_key ?blk}"
    using set_Write2 [OF assms k2] by auto
  from 1 2 3 4 show ?thesis
    unfolding Let_def rp recordSendAllSubRecord_def by blast
qed

theorem C4_record_sub_records_witness:
  "db_sorted scenario_db \<and>
   PaymentTx 7 3 101 1 \<lparr>pv_vout = 0, pv_buyer = ''b'', pv_seller = ''s'', pv_propertyId = 1, pv_amount = 9\<rparr>
     \<in> set (recordPaymentTX scenario_db 7 True 101 0 1 9 ''b'' ''s'') \<and>
   BlockTx 101 7 \<in> set (recordPaymentTX scenario_db 7 True 101 0 1 9 ''b'' ''s'') \<and>
   SendAllTx 7 5 1 9 \<in> set (recordSendAllSubRecord scenario_db 7 101 5 1 9) \<and>
   BlockTx 101 7 \<in> set (recordSendAllSubRecord scenario_db 7 101 5 1 9)"
proof -
  have e: "\<exists>p b v pv. PaymentTx 7 p b v pv \<in> set scenario_db"
    by (simp add: scenario_db_rows) blast
  have "{p. \<exists>b v pv. PaymentTx 7 p b v pv \<in> set scenario_db} = {1, 2}"
    by (auto simp: scenario_db_rows)
  then have m: "Max {p. \<exists>b v pv. PaymentTx 7 p b v pv \<in> set scenario_db} = 2"
    by simp
  show ?thesis
    using C4_record_sub_records [OF scenario_db_sorted, of 7 101 True 0 "''b''" "''s''" 1 9 5 1 9]
    by (simp add: Let_def e m bool_to_uint8_def scenario_db_sorted)
qed

text \<open>
  \<open>recordSendAllSubRecord\<close> does not seek: on a store with no sub-record of
  transaction 1, a call with sub-record number 7 stores number 7, not 1.
\<close>

theorem C4_record_sub_records_counterexample:
  "getNumberOfSubRecords [] 1 = 0 \<and>
   recordSendAllSubRecord [] 1 100 7 3 50 = [BlockTx 100 1, SendAllTx 1 7 3 50]"
  by (simp add: getNumberOfSubRecords_def eval_defs)

section \<open>Validity lookup\<close>

lemma tx_seek:
  fixes txid :: uint256
  assumes "db_sorted d"
  shows "(getTX d txid = None \<and> \<not> (\<exists>b v ty n. Tx txid b v ty n \<in> set d)) \<or>
    (\<exists>b v ty n. getTX d txid = Some (txid, b, v, ty, n) \<and> Tx txid b v ty n \<in> set d)"
proof (cases "filter (has_prefix (PartialKey prefix_t txid)) d")
  case Nil
  let ?it = "Seek_partial (PartialKey prefix_t txid) (NewIterator d)"
  from Nil have no: "\<not> (\<exists>b v ty n. Tx txid b v ty n \<in> set d)"
    by (auto simp: filter_empty_conv hp_tx)
  have "snapshot (NewIterator d) = d" by (simp add: NewIterator_def)
  from seek_partial_first [OF assms this, of "PartialKey prefix_t txid"] Nil
  have "\<not> Valid ?it" by simp
  then have "getTX d txid = None" by (simp add: getTX_def)
  with no show ?thesis by simp
next
  case (Cons r F)
  let ?pt = "PartialKey prefix_t txid"
  let ?it = "Seek_partial ?pt (NewIterator d)"
  from Cons have "r \<in> set (filter (has_prefix ?pt) d)" by simp
  then have rin: "r \<in> set d" and "has_prefix ?pt r" by simp_all
  then obtain b v ty n where r: "r = Tx txid b v ty n" by (auto simp: hp_tx)
  have "snapshot (NewIterator d) = d" by (simp add: NewIterator_def)
  from seek_partial_first [OF assms this, of ?pt] Cons
  obtain rs where V: "Valid ?it" "cursor ?it = r # rs" by auto
  then have "getTX d txid = Some (txid, b, v, ty, n)" by (simp add: getTX_def r)
  then have "getTX d txid = Some (txid, b, v, ty, n) \<and> Tx txid b v ty n \<in> set d"
    using rin r by simp
  then show ?thesis by (intro disjI2 exI)
qed

text \<open>
  C6: \<open>getValidMPTX\<close> first looks up the primary record of the transaction and
  reports its validity flag, block, type and numeric payload.  When there is no primary
  record it falls back to the payment sub-records of the transaction: the first one
  gives the validity flag and the block, the type is 0.  When there is neither, the
  transaction is reported as not valid and nothing is assigned.
\<close>

theorem C6_getValidMPTX:
  assumes "db_sorted d"
  shows
    "if \<exists>b v ty n. Tx txid b v ty n \<in> set d
     then \<exists>b v ty n. Tx txid b v ty n \<in> set d \<and>
            getValidMPTX as_int64 d txid =
              \<lparr>validity = (0 < v), out_block = Some b, out_type = Some ty, out_nAmended = Some n\<rparr>
     else if \<exists>p b v pv. PaymentTx txid p b v pv \<in> set d
     then \<exists>p b v pv. PaymentTx txid p b v pv \<in> set d \<and>
            getValidMPTX as_int64 d txid =
              (case as_int64 pv of
                 Some n \<Rightarrow> \<lparr>validity = (0 < v), out_block = Some b, out_type = Some 0,
                             out_nAmended = Some n\<rparr>
               | None \<Rightarrow> \<lparr>validity = False, out_block = None, out_type = None,
                           out_nAmended = None\<rparr>)
     else getValidMPTX as_int64 d txid =
            \<lparr>validity = False, out_block = None, out_type = None, out_nAmended = None\<rparr>"
proof (cases "\<exists>b v ty n. Tx txid b v ty n \<in> set d")
  case True
  with tx_seek [OF assms, of txid]
  obtain b v ty n where g: "getTX d txid = Some (txid, b, v, ty, n)" and m: "Tx txid b v ty n \<in> set d"
    by blast
  have "getValidMPTX as_int64 d txid =
      \<lparr>validity = (0 < v), out_block = Some b, out_type = Some ty, out_nAmended = Some n\<rparr>"
    by (simp add: getValidMPTX_def g)
  with m have "\<exists>b v ty n. Tx txid b v ty n \<in> set d \<and>
            getValidMPTX as_int64 d txid =
              \<lparr>validity = (0 < v), out_block = Some b, out_type = Some ty, out_nAmended = Some n\<rparr>"
    by blast
  with True show ?thesis by simp
next
  case False
  with tx_seek [OF assms, of txid] have g: "getTX d txid = None" by blast
  have snap: "snapshot (NewIterator d) = d" by (simp add: NewIterator_def)
  let ?it = "Seek_partial (PartialKey prefix_p txid) (NewIterator d)"
  show ?thesis
  proof (cases "\<exists>p b v pv. PaymentTx txid p b v pv \<in> set d")
    case True
    with payment_seek [OF assms snap, of txid]
    obtain p b v pv rs where V: "Valid ?it" "cursor ?it = PaymentTx txid p b v pv # rs"
      and m: "PaymentTx txid p b v pv \<in> set d"
      by blast
    have "getValidMPTX as_int64 d txid =
              (case as_int64 pv of
                 Some n \<Rightarrow> \<lparr>validity = (0 < v), out_block = Some b, out_type = Some 0,
                             out_nAmended = Some n\<rparr>
               | None \<Rightarrow> \<lparr>validity = False, out_block = None, out_type = None,
                           out_nAmended = None\<rparr>)"
      using V by (simp add: getValidMPTX_def g)
    with m have "\<exists>p b v pv. PaymentTx txid p b v pv \<in> set d \<and>
            getValidMPTX as_int64 d txid =
              (case as_int64 pv of
                 Some n \<Rightarrow> \<lparr>validity = (0 < v), out_block = Some b, out_type = Some 0,
                             out_nAmended = Some n\<rparr>
               | None \<Rightarrow> \<lparr>validity = False, out_block = None, out_type = None,
                           out_nAmended = None\<rparr>)"
      by blast
    with True False show ?thesis by simp
  next
    case noP: False
    with payment_seek [OF assms snap, of txid] have "\<not> Valid ?it" by blast
    then have "getValidMPTX as_int64 d txid =
            \<lparr>validity = False, out_block = None, out_type = None, out_nAmended = None\<rparr>"
      by (simp add: getValidMPTX_def g)
    with False noP show ?thesis by simp
  qed
qed

theorem C6_getValidMPTX_witness:
  "db_sorted scenario_db \<and>
   getValidMPTX (\<lambda>pv. None) scenario_db 7 =
     \<lparr>validity = True, out_block = Some 100, out_type = Some 0, out_nAmended = Some 50\<rparr>"
proof -
  have e: "\<exists>b v ty n. Tx 7 b v ty n \<in> set scenario_db"
    by (simp add: scenario_db_rows)
  have "getValidMPTX (\<lambda>pv. None) scenario_db 7 =
     \<lparr>validity = True, out_block = Some 100, out_type = Some 0, out_nAmended = Some 50\<rparr>"
    using C6_getValidMPTX [OF scenario_db_sorted, of 7 "\<lambda>pv. None"] e
    by (auto simp: scenario_db_rows)
  with scenario_db_sorted show ?thesis by simp
qed

section \<open>Deleting transactions\<close>

lemma DeleteToBatch_loop_eq:
  "DeleteToBatch_loop pk L (found, batch) =
     (found \<or> takeWhile (has_prefix pk) L \<noteq> [],
      batch @ map row_key (takeWhile (has_prefix pk) L))"
  by (induction L arbitrary: found batch) simp_all

lemma DeleteToBatch_eq:
  assumes "db_sorted d" "snapshot it = d"
  shows "DeleteToBatch tag batch it txid =
     (filter (has_prefix (PartialKey tag txid)) d \<noteq> [],
      batch @ map row_key (filter (has_prefix (PartialKey tag txid)) d))"
  using prefix_scan [OF assms(1), of "PartialKey tag txid"] assms(2)
  by (simp add: DeleteToBatch_def Let_def Seek_partial_def DeleteToBatch_loop_eq)

lemma delete_blocks_loop_set:
  "sorted_wrt (\<lambda>r s. row_key r < row_key s) L \<Longrightarrow> \<forall>r\<in>set L. [98] \<le> row_key r \<Longrightarrow>
   set (delete_blocks_loop [98] block L batch) =
     set batch \<union> row_key ` {r \<in> set L. \<exists>b t. r = BlockTx b t \<and> block \<le> b}"
proof (induction L arbitrary: batch)
  case Nil
  then show ?case by simp
next
  case (Cons r rs)
  then have lt: "\<forall>y\<in>set rs. row_key r < row_key y" by simp
  show ?case
  proof (cases "has_prefix [98] r")
    case False
    have "\<not> has_prefix [98] y" if "y \<in> set rs" for y
    proof
      assume hy: "has_prefix [98] y"
      from lt that have "row_key r \<le> row_key y" by auto
      moreover from Cons.prems have "[98] \<le> row_key r" by simp
      ultimately have "take (length [98::nat]) (row_key r) = [98]"
        using hy prefix_squeeze unfolding has_prefix_def by blast
      with False show False by (simp add: has_prefix_def)
    qed
    then have "\<forall>b t. BlockTx b t \<notin> set rs" using hp_block by blast
    moreover from False have "\<forall>b t. r \<noteq> BlockTx b t" using hp_block by blast
    ultimately have E: "{x \<in> set (r # rs). \<exists>b t. x = BlockTx b t \<and> block \<le> b} = {}" by auto
    have L: "delete_blocks_loop [98] block (r # rs) batch = batch" using False by simp
    show ?thesis unfolding L E by simp
  next
    case True
    then obtain b t where r: "r = BlockTx b t" using hp_block by blast
    show ?thesis
    proof (cases "b < block")
      case True
      have "\<not> block \<le> b'" if "BlockTx b' t' \<in> set rs" for b' t'
      proof -
        from lt that have "row_key r < row_key (BlockTx b' t')" by blast
        then have "unat (NOT b) \<le> unat (NOT b')" by (auto simp: r CBlockTxKey_def)
        then have "b' \<le> b" by (simp add: unat_NOT_le)
        with True show ?thesis by simp
      qed
      then have E: "{x \<in> set (r # rs). \<exists>b t. x = BlockTx b t \<and> block \<le> b} = {}"
        using True r by auto
      have L: "delete_blocks_loop [98] block (r # rs) batch = batch"
        using True r \<open>has_prefix [98] r\<close> by simp
      show ?thesis unfolding L E by simp
    next
      case False
      then have le: "block \<le> b" by simp
      have IH: "set (delete_blocks_loop [98] block rs (batch @ [row_key r])) =
        set (batch @ [row_key r]) \<union> row_key ` {x \<in> set rs. \<exists>b t. x = BlockTx b t \<and> block \<le> b}"
        using Cons by simp
      have E: "{x \<in> set (r # rs). \<exists>b t. x = BlockTx b t \<and> block \<le> b} =
        insert r {x \<in> set rs. \<exists>b t. x = BlockTx b t \<and> block \<le> b}"
        using le r by auto
      have L: "delete_blocks_loop [98] block (r # rs) batch =
        delete_blocks_loop [98] block rs (batch @ [row_key r])"
        using False \<open>has_prefix [98] r\<close> by (simp add: r)
      show ?thesis unfolding L E IH by simp
    qed
  qed
qed

lemma delete_links_loop_lower:
  "set batch \<subseteq> set (fst (delete_links_loop pk L (batch, C)))"
proof (induction L arbitrary: batch C)
  case Nil
  then show ?case by simp
next
  case (Cons r rs)
  show ?case
  proof (cases "has_prefix pk r \<and> C \<noteq> {}")
    case False
    then show ?thesis by auto
  next
    case True
    show ?thesis
    proof (cases r)
      case (DexTxToCancel target txid)
      show ?thesis
      proof (cases "txid \<in> C")
        case True
        have "set (batch @ [row_key r]) \<subseteq>
          set (fst (delete_links_loop pk rs (batch @ [row_key r], C - {txid})))"
          by (rule Cons.IH)
        then show ?thesis using True \<open>has_prefix pk r \<and> C \<noteq> {}\<close> DexTxToCancel by auto
      next
        case False
        have "set batch \<subseteq> set (fst (delete_links_loop pk rs (batch, C)))"
          by (rule Cons.IH)
        then show ?thesis using False \<open>has_prefix pk r \<and> C \<noteq> {}\<close> DexTxToCancel by auto
      qed
    qed (use True in auto)
  qed
qed

lemma delete_links_loop_upper:
  "set (fst (delete_links_loop pk L (batch, C))) \<subseteq>
     set batch \<union> row_key ` {r \<in> set L. \<exists>t c. r = DexTxToCancel t c \<and> c \<in> C}"
proof (induction L arbitrary: batch C)
  case Nil
  then show ?case by simp
next
  case (Cons r rs)
  show ?case
  proof (cases "has_prefix pk r \<and> C \<noteq> {}")
    case False
    then show ?thesis by auto
  next
    case True
    show ?thesis
    proof (cases r)
      case (DexTxToCancel target txid)
      show ?thesis
      proof (cases "txid \<in> C")
        case True
        have "set (fst (delete_links_loop pk rs (batch @ [row_key r], C - {txid}))) \<subseteq>
          set (batch @ [row_key r]) \<union>
            row_key ` {x \<in> set rs. \<exists>t c. x = DexTxToCancel t c \<and> c \<in> C - {txid}}"
          by (rule Cons.IH)
        also have "\<dots> \<subseteq> set batch \<union>
            row_key ` {x \<in> set (r # rs). \<exists>t c. x = DexTxToCancel t c \<and> c \<in> C}"
        proof -
          have a: "r \<in> {x \<in> set (r # rs). \<exists>t c. x = DexTxToCancel t c \<and> c \<in> C}"
            using True DexTxToCancel by simp
          have b: "{x \<in> set rs. \<exists>t c. x = DexTxToCancel t c \<and> c \<in> C - {txid}} \<subseteq>
            {x \<in> set (r # rs). \<exists>t c. x = DexTxToCancel t c \<and> c \<in> C}" by auto
          from imageI [OF a, of row_key] image_mono [OF b, of row_key] show ?thesis by auto
        qed
        finally have F: "set (fst (delete_links_loop pk rs (batch @ [row_key r], C - {txid}))) \<subseteq>
          set batch \<union> row_key ` {x \<in> set (r # rs). \<exists>t c. x = DexTxToCancel t c \<and> c \<in> C}" .
        have L: "delete_links_loop pk (r # rs) (batch, C) =
          delete_links_loop pk rs (batch @ [row_key r], C - {txid})"
          using True \<open>has_prefix pk r \<and> C \<noteq> {}\<close> by (simp add: DexTxToCancel)
        show ?thesis unfolding L by (rule F)
      next
        case False
        have "set (fst (delete_links_loop pk rs (batch, C))) \<subseteq>
          set batch \<union> row_key ` {x \<in> set rs. \<exists>t c. x = DexTxToCancel t c \<and> c \<in> C}"
          by (rule Cons.IH)
        also have "\<dots> \<subseteq> set batch \<union>
            row_key ` {x \<in> set (r # rs). \<exists>t c. x = DexTxToCancel t c \<and> c \<in> C}"
          by auto
        finally have F: "set (fst (delete_links_loop pk rs (batch, C))) \<subseteq>
          set batch \<union> row_key ` {x \<in> set (r # rs). \<exists>t c. x = DexTxToCancel t c \<and> c \<in> C}" .
        have L: "delete_links_loop pk (r # rs) (batch, C) = delete_links_loop pk rs (batch, C)"
          using False \<open>has_prefix pk r \<and> C \<noteq> {}\<close> by (simp add: DexTxToCancel)
        show ?thesis unfolding L by (rule F)
      qed
    qed (use True in auto)
  qed
qed

lemma delete_tx_step_eq:
  assumes "db_sorted d" "snapshot it = d"
  shows "delete_tx_step it txid (batch, C) =
    (batch @ map row_key (step_rows d txid),
     if under prefix_t txid d = [] \<and> under prefix_p txid d = [] \<and> under prefix_c txid d \<noteq> []
     then insert txid C else C)"
  unfolding delete_tx_step_def step_rows_def under_def
  by (simp add: DeleteToBatch_eq [OF assms] Let_def)

lemma delete_tx_fold:
  assumes "db_sorted d" "snapshot it = d"
  shows "set (fst (foldl (\<lambda>st txid. delete_tx_step it txid st) (batch, C) txs)) =
      set batch \<union> row_key ` (\<Union>t\<in>set txs. set (step_rows d t)) \<and>
    snd (foldl (\<lambda>st txid. delete_tx_step it txid st) (batch, C) txs) \<subseteq> C \<union> set txs"
proof (induction txs arbitrary: batch C)
  case Nil
  then show ?case by simp
next
  case (Cons t ts)
  let ?C = "if under prefix_t t d = [] \<and> under prefix_p t d = [] \<and> under prefix_c t d \<noteq> []
     then insert t C else C"
  have st: "delete_tx_step it t (batch, C) = (batch @ map row_key (step_rows d t), ?C)"
    using assms by (rule delete_tx_step_eq)
  have IH: "set (fst (foldl (\<lambda>st txid. delete_tx_step it txid st)
        (batch @ map row_key (step_rows d t), ?C) ts)) =
      set (batch @ map row_key (step_rows d t)) \<union> row_key ` (\<Union>t\<in>set ts. set (step_rows d t)) \<and>
    snd (foldl (\<lambda>st txid. delete_tx_step it txid st)
        (batch @ map row_key (step_rows d t), ?C) ts) \<subseteq> ?C \<union> set ts"
    by (rule Cons.IH)
  have C: "?C \<union> set ts \<subseteq> C \<union> set (t # ts)" by auto
  have S: "set (batch @ map row_key (step_rows d t)) \<union> row_key ` (\<Union>t\<in>set ts. set (step_rows d t)) =
    set batch \<union> row_key ` (\<Union>t\<in>set (t # ts). set (step_rows d t))"
    by (simp add: image_Un Un_assoc)
  show ?case
    unfolding foldl_Cons st using IH C unfolding S by blast
qed

lemma key_unique:
  "db_sorted d \<Longrightarrow> r \<in> set d \<Longrightarrow> r' \<in> set d \<Longrightarrow> row_key r = row_key r' \<Longrightarrow> r = r'"
  unfolding db_sorted_def
proof (induction d)
  case Nil
  then show ?case by simp
next
  case (Cons x xs)
  from Cons.prems(1) have lt: "\<forall>y\<in>set xs. row_key x < row_key y"
    and sx: "sorted_wrt (\<lambda>r s. row_key r < row_key s) xs" by simp_all
  show ?case
  proof (cases "r = x")
    case True
    show ?thesis
    proof (cases "r' = x")
      case True
      with \<open>r = x\<close> show ?thesis by simp
    next
      case False
      with Cons.prems(3) have "r' \<in> set xs" by simp
      with lt have "row_key x < row_key r'" by blast
      with Cons.prems(4) \<open>r = x\<close> show ?thesis by simp
    qed
  next
    case False
    with Cons.prems(2) have rin: "r \<in> set xs" by simp
    show ?thesis
    proof (cases "r' = x")
      case True
      from rin lt have "row_key x < row_key r" by blast
      with Cons.prems(4) True show ?thesis by simp
    next
      case False
      with Cons.prems(3) have "r' \<in> set xs" by simp
      with Cons.IH sx rin Cons.prems(4) show ?thesis by blast
    qed
  qed
qed

lemma under_nonempty: "under tag t d \<noteq> [] \<longleftrightarrow> (\<exists>r\<in>set d. has_prefix (PartialKey tag t) r)"
  by (auto simp: under_def filter_empty_conv)

lemma set_under: "set (under tag t d) = {r \<in> set d. has_prefix (PartialKey tag t) r}"
  by (simp add: under_def)

lemma step_rows_iff:
  "r \<in> set (step_rows d t) \<longleftrightarrow>
     r \<in> set d \<and>
     ((\<exists>b v ty n. r = Tx t b v ty n) \<or> (\<exists>n p a. r = SendAllTx t n p a) \<or>
      (\<exists>c. r = DexTxToCancel t c) \<or>
      (\<exists>p b v pv. r = PaymentTx t p b v pv) \<and> \<not> (\<exists>b v ty n. Tx t b v ty n \<in> set d) \<or>
      (\<exists>n b v p a. r = DexCancelTx t n b v p a) \<and> \<not> (\<exists>b v ty n. Tx t b v ty n \<in> set d) \<and>
        \<not> (\<exists>p b v pv. PaymentTx t p b v pv \<in> set d))"
proof -
  have T: "under prefix_t t d \<noteq> [] \<longleftrightarrow> (\<exists>b v ty n. Tx t b v ty n \<in> set d)"
    unfolding under_nonempty hp_tx by blast
  have P: "under prefix_p t d \<noteq> [] \<longleftrightarrow> (\<exists>p b v pv. PaymentTx t p b v pv \<in> set d)"
    unfolding under_nonempty hp_payment by blast
  have mem: "r \<in> set (under prefix_t t d) \<longleftrightarrow> r \<in> set d \<and> (\<exists>b v ty n. r = Tx t b v ty n)"
    "r \<in> set (under prefix_p t d) \<longleftrightarrow> r \<in> set d \<and> (\<exists>p b v pv. r = PaymentTx t p b v pv)"
    "r \<in> set (under prefix_c t d) \<longleftrightarrow> r \<in> set d \<and> (\<exists>n b v p a. r = DexCancelTx t n b v p a)"
    "r \<in> set (under prefix_s t d) \<longleftrightarrow> r \<in> set d \<and> (\<exists>n p a. r = SendAllTx t n p a)"
    "r \<in> set (under prefix_e t d) \<longleftrightarrow> r \<in> set d \<and> (\<exists>c. r = DexTxToCancel t c)"
    by (simp_all add: set_under hp_tx hp_payment hp_cancel hp_sendall hp_link)
  show ?thesis
  proof (cases "\<exists>b v ty n. Tx t b v ty n \<in> set d")
    case True
    then have "under prefix_t t d \<noteq> []" by (simp only: T)
    then have "r \<in> set (step_rows d t) \<longleftrightarrow>
      r \<in> set (under prefix_t t d) \<or> r \<in> set (under prefix_s t d) \<or> r \<in> set (under prefix_e t d)"
      by (simp add: step_rows_def)
    with True show ?thesis unfolding mem by blast
  next
    case noT: False
    then have eT: "under prefix_t t d = []" using T by blast
    show ?thesis
    proof (cases "\<exists>p b v pv. PaymentTx t p b v pv \<in> set d")
      case True
      then have "under prefix_p t d \<noteq> []" by (simp only: P)
      then have "r \<in> set (step_rows d t) \<longleftrightarrow>
        r \<in> set (under prefix_p t d) \<or> r \<in> set (under prefix_s t d) \<or> r \<in> set (under prefix_e t d)"
        by (simp add: step_rows_def eT)
      with True noT show ?thesis unfolding mem by blast
    next
      case noP: False
      then have eP: "under prefix_p t d = []" using P by blast
      have "r \<in> set (step_rows d t) \<longleftrightarrow>
        r \<in> set (under prefix_c t d) \<or> r \<in> set (under prefix_s t d) \<or> r \<in> set (under prefix_e t d)"
        by (simp add: step_rows_def eT eP)
      with noP noT show ?thesis unfolding mem by blast
    qed
  qed
qed

lemma step_rows_keyed: "r \<in> set (step_rows d t) \<Longrightarrow> keyed_by t r"
  unfolding step_rows_iff by auto

lemma deleteTransactions_unfold:
  "deleteTransactions d txs block =
     WriteBatch (fst (delete_links_loop [101] (seek_rows (CDexTxToCancelKey 0) d)
        (foldl (\<lambda>st txid. delete_tx_step (Seek_key (CBlockTxKey (- 1) 0) (NewIterator d)) txid st)
          (delete_blocks_loop [98] block (seek_rows (CBlockTxKey (- 1) 0) d) [], {}) txs))) d"
  unfolding deleteTransactions_def Let_def split_beta
  by (simp add: Seek_key_def NewIterator_def CBlockTxKey_def CDexTxToCancelKey_def)

lemma links_of_seek:
  assumes "db_sorted d" "C \<subseteq> T"
  shows "row_key ` {r \<in> set (seek_rows k d). \<exists>t c. r = DexTxToCancel t c \<and> c \<in> C} \<subseteq>
      row_key ` {r \<in> set d. \<exists>t c. r = DexTxToCancel t c \<and> c \<in> T}"
proof (rule image_mono)
  show "{r \<in> set (seek_rows k d). \<exists>t c. r = DexTxToCancel t c \<and> c \<in> C} \<subseteq>
      {r \<in> set d. \<exists>t c. r = DexTxToCancel t c \<and> c \<in> T}"
    unfolding seek_rows_filter [OF assms(1)] using assms(2) by auto
qed

lemma sandwich:
  "F = A \<union> S \<Longrightarrow> F \<subseteq> B \<Longrightarrow> B \<subseteq> F \<union> X \<Longrightarrow> X \<subseteq> Y \<Longrightarrow> A \<union> S \<subseteq> B \<and> B \<subseteq> A \<union> S \<union> Y"
  by blast

lemma deleteTransactions_batch:
  assumes "db_sorted d"
  shows "\<exists>B. deleteTransactions d txs block = WriteBatch B d \<and>
    (row_key ` {r \<in> set d. \<exists>b t. r = BlockTx b t \<and> block \<le> b} \<union>
      row_key ` (\<Union>t\<in>set txs. set (step_rows d t)) \<subseteq> set B \<and>
    set B \<subseteq> row_key ` {r \<in> set d. \<exists>b t. r = BlockTx b t \<and> block \<le> b} \<union>
      row_key ` (\<Union>t\<in>set txs. set (step_rows d t)) \<union>
      row_key ` {r \<in> set d. \<exists>t c. r = DexTxToCancel t c \<and> c \<in> set txs})"
proof -
  let ?K = "CBlockTxKey (- 1) 0"
  let ?it1 = "Seek_key ?K (NewIterator d)"
  let ?B1 = "delete_blocks_loop [98] block (seek_rows ?K d) []"
  let ?f = "foldl (\<lambda>st txid. delete_tx_step ?it1 txid st) (?B1, {}) txs"
  let ?L3 = "seek_rows (CDexTxToCancelKey 0) d"
  let ?B3 = "fst (delete_links_loop [101] ?L3 ?f)"
  let ?blk = "{r \<in> set d. \<exists>b t. r = BlockTx b t \<and> block \<le> b}"
  let ?stp = "\<Union>t\<in>set txs. set (step_rows d t)"
  have snap: "snapshot ?it1 = d" by (simp add: Seek_key_def NewIterator_def)
  have eq: "deleteTransactions d txs block = WriteBatch ?B3 d"
    by (rule deleteTransactions_unfold)
  have s1: "sorted_wrt (\<lambda>r s. row_key r < row_key s) (seek_rows ?K d)"
    using assms by (rule seek_rows_sorted)
  have g1: "\<forall>r\<in>set (seek_rows ?K d). [98] \<le> row_key r"
    using assms by (rule block_seek_rows(1))
  have m1: "BlockTx b t \<in> set (seek_rows ?K d) \<longleftrightarrow> BlockTx b t \<in> set d" for b t
    using block_seek_rows(2) [OF assms, of b t "- 1"] by simp
  have "{r \<in> set (seek_rows ?K d). \<exists>b t. r = BlockTx b t \<and> block \<le> b} = ?blk"
    using m1 by auto
  moreover have "set ?B1 = set [] \<union>
      row_key ` {r \<in> set (seek_rows ?K d). \<exists>b t. r = BlockTx b t \<and> block \<le> b}"
    using s1 g1 by (rule delete_blocks_loop_set)
  ultimately have B1: "set ?B1 = row_key ` ?blk" by simp
  have fold: "set (fst ?f) = set ?B1 \<union> row_key ` ?stp \<and> snd ?f \<subseteq> {} \<union> set txs"
    using assms snap by (rule delete_tx_fold)
  then have B2: "set (fst ?f) = row_key ` ?blk \<union> row_key ` ?stp" and C2: "snd ?f \<subseteq> set txs"
    unfolding B1 by simp_all
  have lo: "set (fst ?f) \<subseteq> set ?B3"
    using delete_links_loop_lower [of "fst ?f" "[101]" ?L3 "snd ?f"] by simp
  have up: "set ?B3 \<subseteq> set (fst ?f) \<union>
      row_key ` {r \<in> set ?L3. \<exists>t c. r = DexTxToCancel t c \<and> c \<in> snd ?f}"
    using delete_links_loop_upper [of "[101]" ?L3 "fst ?f" "snd ?f"] by simp
  have lk: "row_key ` {r \<in> set ?L3. \<exists>t c. r = DexTxToCancel t c \<and> c \<in> snd ?f} \<subseteq>
      row_key ` {r \<in> set d. \<exists>t c. r = DexTxToCancel t c \<and> c \<in> set txs}"
    using assms C2 by (rule links_of_seek)
  have "deleteTransactions d txs block = WriteBatch ?B3 d \<and>
    (row_key ` ?blk \<union> row_key ` ?stp \<subseteq> set ?B3 \<and>
     set ?B3 \<subseteq> row_key ` ?blk \<union> row_key ` ?stp \<union>
       row_key ` {r \<in> set d. \<exists>t c. r = DexTxToCancel t c \<and> c \<in> set txs})"
    using sandwich [OF B2 lo up lk] eq by (rule conjI [rotated])
  then show ?thesis by (rule exI)
qed

lemma cancel_db_rows:
  "cancel_db = [BlockTx 101 9, BlockTx 100 5, DexCancelTx 9 1 101 1 1 10, DexTxToCancel 5 9,
     Tx 5 100 1 25 10]"
  by (simp add: cancel_db_def eval_defs)

lemma cancel_db_sorted: "db_sorted cancel_db"
  by (simp add: cancel_db_rows db_sorted_def key_defs)

lemmas delete_eval =
  deleteTransactions_unfold seek_rows_def key_defs delete_tx_step_def DeleteToBatch_def
  Seek_partial_def Seek_key_def NewIterator_def PartialKey_def prefix_defs has_prefix_def
  WriteBatch_def Let_def

text \<open>
  C1, as the code has it: for a height \<open>block \<ge> 0\<close>, \<open>deleteTransactions\<close>
  only deletes rows, and it deletes every block-index row of a block \<open>\<ge> block\<close>.
  For every listed transaction id it deletes every primary record, every send-all
  sub-record and the reverse cancel-link keyed by that id (the link of a listed target,
  whether or not the cancelling transaction is listed); it deletes the payment
  sub-records of a listed id that has no primary record, and the cancel sub-records of a
  listed id that has neither a primary record nor a payment sub-record.  Every other row
  stays, unless it is a reverse cancel-link whose cancelling transaction is listed.
\<close>

theorem C1_deleteTransactions:
  assumes "db_sorted d" and "0 \<le> sint block"
  shows
   "set (deleteTransactions d txs block) \<subseteq> set d \<and>
    (\<forall>b t. sint block \<le> uint b \<longrightarrow> BlockTx b t \<notin> set (deleteTransactions d txs block)) \<and>
    (\<forall>t\<in>set txs.
       (\<forall>b v ty n. Tx t b v ty n \<notin> set (deleteTransactions d txs block)) \<and>
       (\<forall>n p a. SendAllTx t n p a \<notin> set (deleteTransactions d txs block)) \<and>
       (\<forall>c. DexTxToCancel t c \<notin> set (deleteTransactions d txs block)) \<and>
       ((\<forall>b v ty n. Tx t b v ty n \<notin> set d) \<longrightarrow>
          (\<forall>p b v pv. PaymentTx t p b v pv \<notin> set (deleteTransactions d txs block))) \<and>
       ((\<forall>b v ty n. Tx t b v ty n \<notin> set d) \<and> (\<forall>p b v pv. PaymentTx t p b v pv \<notin> set d) \<longrightarrow>
          (\<forall>n b v p a. DexCancelTx t n b v p a \<notin> set (deleteTransactions d txs block)))) \<and>
    (\<forall>r\<in>set d.
       (\<forall>b t. r = BlockTx b t \<longrightarrow> uint b < sint block) \<and>
       (\<forall>t\<in>set txs. \<not> keyed_by t r) \<and>
       (\<forall>t c. r = DexTxToCancel t c \<longrightarrow> c \<notin> set txs) \<longrightarrow>
       r \<in> set (deleteTransactions d txs block))"
proof -
  let ?R = "set (deleteTransactions d txs block)"
  let ?blk = "{r \<in> set d. \<exists>b t. r = BlockTx b t \<and> block \<le> b}"
  let ?stp = "\<Union>t\<in>set txs. set (step_rows d t)"
  let ?lnk = "{r \<in> set d. \<exists>t c. r = DexTxToCancel t c \<and> c \<in> set txs}"
  from deleteTransactions_batch [OF assms(1), of txs block]
  obtain B where eq: "deleteTransactions d txs block = WriteBatch B d"
    and lo: "row_key ` ?blk \<union> row_key ` ?stp \<subseteq> set B"
    and up: "set B \<subseteq> row_key ` ?blk \<union> row_key ` ?stp \<union> row_key ` ?lnk"
    by blast
  have inR: "r \<in> ?R \<longleftrightarrow> r \<in> set d \<and> row_key r \<notin> set B" for r
    by (simp add: eq WriteBatch_def)
  have gone: "r \<notin> ?R" if "r \<in> ?blk \<or> r \<in> ?stp" for r
  proof -
    from that have "row_key r \<in> row_key ` ?blk \<union> row_key ` ?stp" by blast
    with lo have "row_key r \<in> set B" by blast
    then show ?thesis by (simp add: inR)
  qed
  have 1: "?R \<subseteq> set d" by (auto simp: inR)
  have 2: "BlockTx b t \<notin> ?R" if "sint block \<le> uint b" for b t
  proof (cases "BlockTx b t \<in> set d")
    case True
    from that have "block \<le> b" by (simp add: nonneg_sint_le_uint [OF assms(2)])
    with True have "BlockTx b t \<in> ?blk" by simp
    then show ?thesis using gone by blast
  next
    case False
    then show ?thesis by (simp add: inR)
  qed
  have step_gone: "r \<notin> ?R" if "t \<in> set txs" "r \<in> set d \<longrightarrow> r \<in> set (step_rows d t)" for r t
  proof (cases "r \<in> set d")
    case True
    with that have "r \<in> ?stp" by blast
    then show ?thesis using gone by blast
  next
    case False
    then show ?thesis by (simp add: inR)
  qed
  have 3: "(\<forall>b v ty n. Tx t b v ty n \<notin> ?R) \<and>
       (\<forall>n p a. SendAllTx t n p a \<notin> ?R) \<and>
       (\<forall>c. DexTxToCancel t c \<notin> ?R) \<and>
       ((\<forall>b v ty n. Tx t b v ty n \<notin> set d) \<longrightarrow> (\<forall>p b v pv. PaymentTx t p b v pv \<notin> ?R)) \<and>
       ((\<forall>b v ty n. Tx t b v ty n \<notin> set d) \<and> (\<forall>p b v pv. PaymentTx t p b v pv \<notin> set d) \<longrightarrow>
          (\<forall>n b v p a. DexCancelTx t n b v p a \<notin> ?R))"
    if t: "t \<in> set txs" for t
  proof (intro conjI allI impI)
    fix b v ty n show "Tx t b v ty n \<notin> ?R"
      by (rule step_gone [OF t]) (simp add: step_rows_iff)
  next
    fix n p a show "SendAllTx t n p a \<notin> ?R"
      by (rule step_gone [OF t]) (simp add: step_rows_iff)
  next
    fix c show "DexTxToCancel t c \<notin> ?R"
      by (rule step_gone [OF t]) (simp add: step_rows_iff)
  next
    fix p b v pv assume "\<forall>b v ty n. Tx t b v ty n \<notin> set d"
    then show "PaymentTx t p b v pv \<notin> ?R"
      by (intro step_gone [OF t]) (simp add: step_rows_iff)
  next
    fix n b v p a
    assume "(\<forall>b v ty n. Tx t b v ty n \<notin> set d) \<and> (\<forall>p b v pv. PaymentTx t p b v pv \<notin> set d)"
    then show "DexCancelTx t n b v p a \<notin> ?R"
      by (intro step_gone [OF t]) (simp add: step_rows_iff)
  qed
  have 4: "r \<in> ?R"
    if rin: "r \<in> set d"
      and c: "(\<forall>b t. r = BlockTx b t \<longrightarrow> uint b < sint block) \<and>
       (\<forall>t\<in>set txs. \<not> keyed_by t r) \<and>
       (\<forall>t c. r = DexTxToCancel t c \<longrightarrow> c \<notin> set txs)" for r
  proof -
    have "row_key r \<notin> set B"
    proof
      assume "row_key r \<in> set B"
      with up have "row_key r \<in> row_key ` (?blk \<union> ?stp \<union> ?lnk)"
        by (auto simp: image_Un)
      then obtain r' where r': "r' \<in> ?blk \<union> ?stp \<union> ?lnk" and k: "row_key r = row_key r'"
        by blast
      from r' have "r' \<in> set d" by (auto simp: step_rows_iff)
      with assms(1) rin have rr: "r = r'" using k by (rule key_unique)
      from r' consider "r' \<in> ?blk" | "r' \<in> ?stp" | "r' \<in> ?lnk" by blast
      then show False
      proof cases
        case 1
        then obtain b t where "r = BlockTx b t" "block \<le> b" using rr by auto
        moreover from this c have "uint b < sint block" by blast
        ultimately show False using nonneg_sint_le_uint [OF assms(2), of b] by simp
      next
        case 2
        then obtain t where "t \<in> set txs" "r \<in> set (step_rows d t)" using rr by auto
        then show False using c step_rows_keyed by blast
      next
        case 3
        then show False using c rr by blast
      qed
    qed
    with rin show ?thesis by (simp add: inR)
  qed
  show ?thesis
  proof (intro conjI)
    show "?R \<subseteq> set d" by (rule 1)
    show "\<forall>b t. sint block \<le> uint b \<longrightarrow> BlockTx b t \<notin> ?R" using 2 by simp
    show "\<forall>t\<in>set txs.
       (\<forall>b v ty n. Tx t b v ty n \<notin> ?R) \<and>
       (\<forall>n p a. SendAllTx t n p a \<notin> ?R) \<and>
       (\<forall>c. DexTxToCancel t c \<notin> ?R) \<and>
       ((\<forall>b v ty n. Tx t b v ty n \<notin> set d) \<longrightarrow> (\<forall>p b v pv. PaymentTx t p b v pv \<notin> ?R)) \<and>
       ((\<forall>b v ty n. Tx t b v ty n \<notin> set d) \<and> (\<forall>p b v pv. PaymentTx t p b v pv \<notin> set d) \<longrightarrow>
          (\<forall>n b v p a. DexCancelTx t n b v p a \<notin> ?R))"
      using 3 by (intro ballI)
    show "\<forall>r\<in>set d.
       (\<forall>b t. r = BlockTx b t \<longrightarrow> uint b < sint block) \<and>
       (\<forall>t\<in>set txs. \<not> keyed_by t r) \<and>
       (\<forall>t c. r = DexTxToCancel t c \<longrightarrow> c \<notin> set txs) \<longrightarrow>
       r \<in> ?R"
      using 4 by (intro ballI impI)
  qed
qed

theorem C1_deleteTransactions_witness:
  "db_sorted cancel_db \<and> 0 \<le> sint (101 :: cint) \<and>
   BlockTx 101 9 \<notin> set (deleteTransactions cancel_db [9] 101) \<and>
   DexCancelTx 9 1 101 1 1 10 \<notin> set (deleteTransactions cancel_db [9] 101) \<and>
   BlockTx 100 5 \<in> set (deleteTransactions cancel_db [9] 101) \<and>
   Tx 5 100 1 25 10 \<in> set (deleteTransactions cancel_db [9] 101)"
proof -
  have h: "0 \<le> sint (101 :: cint)" by simp
  note T = C1_deleteTransactions [OF cancel_db_sorted h, of "[9]"]
  from T have a: "BlockTx 101 9 \<notin> set (deleteTransactions cancel_db [9] 101)"
    by simp
  have "(\<forall>b v ty n. Tx 9 b v ty n \<notin> set cancel_db) \<and>
        (\<forall>p b v pv. PaymentTx 9 p b v pv \<notin> set cancel_db)"
    by (simp add: cancel_db_rows)
  with T have b: "DexCancelTx 9 1 101 1 1 10 \<notin> set (deleteTransactions cancel_db [9] 101)"
    by simp
  from T have k: "\<forall>r\<in>set cancel_db.
       (\<forall>b t. r = BlockTx b t \<longrightarrow> uint b < sint (101 :: cint)) \<and>
       (\<forall>t\<in>set [9]. \<not> keyed_by t r) \<and>
       (\<forall>t c. r = DexTxToCancel t c \<longrightarrow> c \<notin> set [9]) \<longrightarrow>
       r \<in> set (deleteTransactions cancel_db [9] 101)"
    by (elim conjE)
  have c: "BlockTx 100 5 \<in> set (deleteTransactions cancel_db [9] 101)"
    by (rule k [rule_format]) (simp_all add: cancel_db_rows)
  have d: "Tx 5 100 1 25 10 \<in> set (deleteTransactions cancel_db [9] 101)"
    by (rule k [rule_format]) (simp_all add: cancel_db_rows)
  from cancel_db_sorted h a b c d show ?thesis by (intro conjI)
qed

text \<open>
  Transaction 9 cancels the order of transaction 5.  Deleting transaction 5 alone
  removes the reverse link from 5 to 9; deleting transaction 9 alone removes it too.  And
  the payment sub-records of a listed transaction that has a primary record stay.
\<close>

theorem C1_deleteTransactions_counterexample:
  "DexTxToCancel 5 9 \<in> set cancel_db \<and>
   deleteTransactions cancel_db [5] 100 = [DexCancelTx 9 1 101 1 1 10] \<and>
   deleteTransactions cancel_db [9] 101 = [BlockTx 100 5, Tx 5 100 1 25 10] \<and>
   deleteTransactions scenario_db [7] 100 =
     [PaymentTx 7 2 100 1 \<lparr>pv_vout = 2, pv_buyer = ''buyer'', pv_seller = ''seller'',
        pv_propertyId = 1, pv_amount = 30\<rparr>,
      PaymentTx 7 1 100 1 \<lparr>pv_vout = 1, pv_buyer = ''buyer'', pv_seller = ''seller'',
        pv_propertyId = 1, pv_amount = 25\<rparr>]"
proof -
  have 1: "deleteTransactions cancel_db [5] 100 = [DexCancelTx 9 1 101 1 1 10]"
    by (simp add: cancel_db_rows delete_eval)
  have 2: "deleteTransactions cancel_db [9] 101 = [BlockTx 100 5, Tx 5 100 1 25 10]"
    by (simp add: cancel_db_rows delete_eval)
  have 3: "deleteTransactions scenario_db [7] 100 =
     [PaymentTx 7 2 100 1 \<lparr>pv_vout = 2, pv_buyer = ''buyer'', pv_seller = ''seller'',
        pv_propertyId = 1, pv_amount = 30\<rparr>,
      PaymentTx 7 1 100 1 \<lparr>pv_vout = 1, pv_buyer = ''buyer'', pv_seller = ''seller'',
        pv_propertyId = 1, pv_amount = 25\<rparr>]"
    by (simp add: scenario_db_rows delete_eval)
  from 1 2 3 show ?thesis by (simp add: cancel_db_rows)
qed

section \<open>When a checkpoint is due\<close>




section \<open>The balances table holds non-zero amounts only\<close>

subsection \<open>The writer\<close>

lemma write_properties_eq:
  "write_properties t ids (e, line) =
     (e \<and> filter (\<lambda>(propertyId, b, s, a, m). \<not> (b = 0 \<and> s = 0 \<and> a = 0 \<and> m = 0))
            (map (\<lambda>propertyId. (propertyId, getMoney t propertyId BALANCE,
                getMoney t propertyId SELLOFFER_RESERVE, getMoney t propertyId ACCEPT_RESERVE,
                getMoney t propertyId METADEX_RESERVE))
              (takeWhile (\<lambda>propertyId. propertyId \<noteq> 0) ids)) = [],
      line @ concat (map (\<lambda>(propertyId, b, s, a, m). balance_entry propertyId b s a m)
        (filter (\<lambda>(propertyId, b, s, a, m). \<not> (b = 0 \<and> s = 0 \<and> a = 0 \<and> m = 0))
            (map (\<lambda>propertyId. (propertyId, getMoney t propertyId BALANCE,
                getMoney t propertyId SELLOFFER_RESERVE, getMoney t propertyId ACCEPT_RESERVE,
                getMoney t propertyId METADEX_RESERVE))
              (takeWhile (\<lambda>propertyId. propertyId \<noteq> 0) ids)))))"
proof (induction ids arbitrary: e line)
  case Nil
  then show ?case by simp
next
  case (Cons p ids)
  show ?case
  proof (cases "p = 0")
    case True
    then show ?thesis by simp
  next
    case False
    then show ?thesis by (simp add: Cons.IH Let_def)
  qed
qed

lemma write_properties_emitted:
  "write_properties t (map fst t) (True, address @ ''='') =
     (emitted t = [], balance_line address (emitted t))"
  by (simp add: write_properties_eq emitted_def balance_line_def)

lemma write_msc_balances_fold:
  "write_msc_balances tm out = foldl (\<lambda>out l. write_line l out) out (balance_lines tm)"
proof (induction tm arbitrary: out)
  case Nil
  then show ?case by (simp add: balance_lines_def)
next
  case (Cons x tm)
  obtain address t where x: "x = (address, t)" by (cases x)
  show ?case
    by (simp add: x write_properties_emitted Cons.IH balance_lines_def)
qed

lemma foldl_write_line:
  "foldl (\<lambda>out l. write_line l out) out ls =
     \<lparr>file_text = file_text out @ concat (map (\<lambda>l. l @ [CHR 0x0A]) ls),
      hasher_data = hasher_data out @ concat ls\<rparr>"
  by (induction ls arbitrary: out) (simp_all add: write_line_def)

lemma write_msc_balances_out:
  "write_msc_balances tm \<lparr>file_text = [], hasher_data = []\<rparr> =
     \<lparr>file_text = concat (map (\<lambda>l. l @ [CHR 0x0A]) (balance_lines tm)),
      hasher_data = concat (balance_lines tm)\<rparr>"
  by (simp add: write_msc_balances_fold foldl_write_line)

lemma emitted_nonzero:
  "(propertyId, b, s, a, m) \<in> set (emitted t) \<Longrightarrow> b \<noteq> 0 \<or> s \<noteq> 0 \<or> a \<noteq> 0 \<or> m \<noteq> 0"
  by (auto simp: emitted_def)

subsection \<open>The calls of the line parser\<close>

lemma update_nonzero_record:
  "update_nonzero upd w p a t (apply_calls upd acc st0) =
   apply_calls upd (update_nonzero record_call w p a t acc) st0"
  by (simp add: update_nonzero_def record_call_def apply_calls_def)

lemma input_properties_calls_gen:
  "input_properties upd addr ps (apply_calls upd acc st0) =
   map_parse_result (\<lambda>calls. apply_calls upd calls st0) (input_properties record_call addr ps acc)"
proof (induction ps arbitrary: acc)
  case Nil
  then show ?case by (simp add: map_parse_result_def)
next
  case (Cons p ps)
  show ?case
  proof (cases "p = []")
    case True
    then show ?thesis by (simp add: Cons.IH)
  next
    case False
    show ?thesis
      using False
      by (simp add: update_nonzero_record Cons.IH map_parse_result_def
          split: list.split option.split)
  qed
qed

lemma input_msc_balances_string_calls:
  "input_msc_balances_string upd line st =
   map_parse_result (\<lambda>calls. apply_calls upd calls st) (input_msc_balances_string record_call line [])"
proof -
  have "input_properties upd addr ps st =
    map_parse_result (\<lambda>calls. apply_calls upd calls st) (input_properties record_call addr ps [])"
    for addr ps
    using input_properties_calls_gen [of upd addr ps "[]" st] by (simp add: apply_calls_def)
  then show ?thesis
    by (simp add: input_msc_balances_string_def map_parse_result_def apply_calls_def
        split: list.split)
qed

lemma update_nonzero_record_nonzero:
  "\<forall>(who, p, amount, ttype)\<in>set acc. amount \<noteq> 0 \<Longrightarrow>
   \<forall>(who, p, amount, ttype)\<in>set (update_nonzero record_call w q a t acc). amount \<noteq> 0"
  by (auto simp: update_nonzero_def record_call_def)

lemma input_properties_nonzero:
  "\<forall>(who, p, amount, ttype)\<in>set acc. amount \<noteq> 0 \<Longrightarrow>
   input_properties record_call addr ps acc = Parsed calls \<or>
   input_properties record_call addr ps acc = ParseFailed calls \<Longrightarrow>
   \<forall>(who, p, amount, ttype)\<in>set calls. amount \<noteq> 0"
proof (induction ps arbitrary: acc)
  case Nil
  then show ?case by auto
next
  case (Cons p ps)
  show ?case
  proof (cases "p = []")
    case True
    with Cons show ?thesis by simp
  next
    case False
    show ?thesis
    proof (cases "split_compress (is_any_of '':'') p")
      case Nil
      with Cons.prems False show ?thesis by auto
    next
      case c1: (Cons cp0 r1)
      show ?thesis
      proof (cases r1)
        case Nil
        with Cons.prems False c1 show ?thesis by auto
      next
        case c2: (Cons cp1 r2)
        show ?thesis
        proof (cases "r2 = []")
          case False
          with Cons.prems \<open>p \<noteq> []\<close> c1 c2 show ?thesis by (cases r2) auto
        next
          case True
          note sp = c1 c2 True
          show ?thesis
          proof (cases "\<exists>cb0 cb1 cb2 cb3. split_compress (is_any_of '','') cp1 = [cb0, cb1, cb2, cb3]")
            case False
            then have "input_properties record_call addr (p # ps) acc = ParseFailed acc"
              using \<open>p \<noteq> []\<close> sp
              by (auto split: list.split)
            with Cons.prems show ?thesis by auto
          next
            case True
            then obtain cb0 cb1 cb2 cb3 where
              cb: "split_compress (is_any_of '','') cp1 = [cb0, cb1, cb2, cb3]" by blast
            show ?thesis
            proof (cases "\<exists>pid b s a m. lexical_cast_uint32 cp0 = Some pid \<and>
                 lexical_cast_int64 cb0 = Some b \<and> lexical_cast_int64 cb1 = Some s \<and>
                 lexical_cast_int64 cb2 = Some a \<and> lexical_cast_int64 cb3 = Some m")
              case False
              then have "input_properties record_call addr (p # ps) acc = Thrown"
                using \<open>p \<noteq> []\<close> sp cb by (auto split: option.split)
              with Cons.prems show ?thesis by auto
            next
              case True
              then obtain pid b s a m where lc: "lexical_cast_uint32 cp0 = Some pid"
                 "lexical_cast_int64 cb0 = Some b" "lexical_cast_int64 cb1 = Some s"
                 "lexical_cast_int64 cb2 = Some a" "lexical_cast_int64 cb3 = Some m" by blast
              let ?acc = "update_nonzero record_call addr pid m METADEX_RESERVE
                        (update_nonzero record_call addr pid a ACCEPT_RESERVE
                          (update_nonzero record_call addr pid s SELLOFFER_RESERVE
                            (update_nonzero record_call addr pid b BALANCE acc)))"
              have e: "input_properties record_call addr (p # ps) acc =
                  input_properties record_call addr ps ?acc"
                using \<open>p \<noteq> []\<close> sp cb lc by simp
              have "\<forall>(who, p, amount, ttype)\<in>set ?acc. amount \<noteq> 0"
                using Cons.prems(1) by (intro update_nonzero_record_nonzero)
              then show ?thesis using Cons.IH [of ?acc] Cons.prems(2) unfolding e by blast
            qed
          qed
        qed
      qed
    qed
  qed
qed

lemma input_msc_balances_string_nonzero:
  assumes "input_msc_balances_string record_call line [] = Parsed calls \<or>
           input_msc_balances_string record_call line [] = ParseFailed calls"
  shows "\<forall>(who, p, amount, ttype)\<in>set calls. amount \<noteq> 0"
proof (cases "\<exists>addr props. split_compress (is_any_of ''='') line = [addr, props]")
  case True
  then obtain addr props where sp: "split_compress (is_any_of ''='') line = [addr, props]" by blast
  have "\<forall>(who, p, amount, ttype)\<in>set ([] :: tally_call list). amount \<noteq> 0" by simp
  then show ?thesis
    using assms input_properties_nonzero [of "[]" addr "split_compress (is_any_of '';'') props" calls]
    by (simp add: input_msc_balances_string_def sp)
next
  case False
  then have "input_msc_balances_string record_call line [] = ParseFailed []"
    by (auto simp: input_msc_balances_string_def split: list.split)
  with assms show ?thesis by auto
qed


subsection \<open>The example tally map\<close>

lemmas dec_defs = show_uint32_def show_int64_def show_nat.simps digit_char_def
  lexical_cast_uint32_def lexical_cast_int64_def signed_digits_def digits_value_def is_digit_def

lemma example_balance_lines: "balance_lines example_tally_map = [''1A=1:5,0,0,0;'']"
  by (simp add: balance_lines_def example_tally_map_def emitted_def getMoney_def zero_tally_def
      balance_line_def balance_entry_def dec_defs)

lemma example_line_calls:
  "input_msc_balances_string record_call ''1A=1:5,0,0,0;'' [] = Parsed [(''1A'', 1, 5, BALANCE)]"
  by (simp add: input_msc_balances_string_def is_any_of_def dec_defs update_nonzero_def record_call_def)

text \<open>
  Claim C9.  The balances file written by \<open>write_msc_balances\<close> consists of the lines
  \<open>balance_lines\<close>, one per address that has an emitted entry, and the hasher is fed
  the same lines.  Every emitted entry has a non-zero amount among its four, so no entry
  with four zero amounts is written; an address all of whose properties have four zero
  amounts contributes no line.  Restoring a line with \<open>input_msc_balances_string\<close>
  changes the tally only through the calls of \<open>update_tally_map\<close> it makes, and
  every call it makes carries a non-zero amount.
\<close>

theorem C9_balances_nonzero_amounts:
  "write_msc_balances tm \<lparr>file_text = [], hasher_data = []\<rparr> =
     \<lparr>file_text = concat (map (\<lambda>l. l @ [CHR 0x0A]) (balance_lines tm)),
      hasher_data = concat (balance_lines tm)\<rparr> \<and>
   (\<forall>(propertyId, b, s, a, m)\<in>set (emitted t). b \<noteq> 0 \<or> s \<noteq> 0 \<or> a \<noteq> 0 \<or> m \<noteq> 0) \<and>
   ((\<forall>propertyId\<in>set (map fst t).
        getMoney t propertyId BALANCE = 0 \<and> getMoney t propertyId SELLOFFER_RESERVE = 0 \<and>
        getMoney t propertyId ACCEPT_RESERVE = 0 \<and> getMoney t propertyId METADEX_RESERVE = 0) \<longrightarrow>
      balance_lines (tm1 @ (address, t) # tm2) = balance_lines tm1 @ balance_lines tm2) \<and>
   input_msc_balances_string upd line st =
     map_parse_result (\<lambda>calls. apply_calls upd calls st)
       (input_msc_balances_string record_call line []) \<and>
   (\<forall>calls. input_msc_balances_string record_call line [] = Parsed calls \<or>
            input_msc_balances_string record_call line [] = ParseFailed calls \<longrightarrow>
      (\<forall>(who, propertyId, amount, ttype)\<in>set calls. amount \<noteq> 0))"
proof (intro conjI allI impI)
  show "write_msc_balances tm \<lparr>file_text = [], hasher_data = []\<rparr> =
     \<lparr>file_text = concat (map (\<lambda>l. l @ [CHR 0x0A]) (balance_lines tm)),
      hasher_data = concat (balance_lines tm)\<rparr>"
    by (rule write_msc_balances_out)
next
  show "\<forall>(propertyId, b, s, a, m)\<in>set (emitted t). b \<noteq> 0 \<or> s \<noteq> 0 \<or> a \<noteq> 0 \<or> m \<noteq> 0"
    using emitted_nonzero [of _ _ _ _ _ t] by blast
next
  assume z: "\<forall>propertyId\<in>set (map fst t).
        getMoney t propertyId BALANCE = 0 \<and> getMoney t propertyId SELLOFFER_RESERVE = 0 \<and>
        getMoney t propertyId ACCEPT_RESERVE = 0 \<and> getMoney t propertyId METADEX_RESERVE = 0"
  have "emitted t = []"
    unfolding emitted_def filter_empty_conv
  proof
    fix e
    assume "e \<in> set (map (\<lambda>propertyId. (propertyId, getMoney t propertyId BALANCE,
                getMoney t propertyId SELLOFFER_RESERVE, getMoney t propertyId ACCEPT_RESERVE,
                getMoney t propertyId METADEX_RESERVE))
          (takeWhile (\<lambda>propertyId. propertyId \<noteq> 0) (map fst t)))"
    then obtain p where p: "p \<in> set (takeWhile (\<lambda>propertyId. propertyId \<noteq> 0) (map fst t))"
      and e: "e = (p, getMoney t p BALANCE, getMoney t p SELLOFFER_RESERVE,
                getMoney t p ACCEPT_RESERVE, getMoney t p METADEX_RESERVE)"
      by auto
    from p have "p \<in> set (map fst t)" by (rule set_takeWhileD [THEN conjunct1])
    with z have "getMoney t p BALANCE = 0 \<and> getMoney t p SELLOFFER_RESERVE = 0 \<and>
        getMoney t p ACCEPT_RESERVE = 0 \<and> getMoney t p METADEX_RESERVE = 0"
      by (rule bspec)
    then show "\<not> (case e of (propertyId, b, s, a, m) \<Rightarrow> \<not> (b = 0 \<and> s = 0 \<and> a = 0 \<and> m = 0))"
      unfolding e by simp
  qed
  then show "balance_lines (tm1 @ (address, t) # tm2) = balance_lines tm1 @ balance_lines tm2"
    by (simp add: balance_lines_def)
next
  show "input_msc_balances_string upd line st =
     map_parse_result (\<lambda>calls. apply_calls upd calls st)
       (input_msc_balances_string record_call line [])"
    by (rule input_msc_balances_string_calls)
next
  fix calls
  assume "input_msc_balances_string record_call line [] = Parsed calls \<or>
            input_msc_balances_string record_call line [] = ParseFailed calls"
  then show "\<forall>(who, propertyId, amount, ttype)\<in>set calls. amount \<noteq> 0"
    by (rule input_msc_balances_string_nonzero)
qed

theorem C9_balances_nonzero_amounts_witness:
  "write_msc_balances example_tally_map \<lparr>file_text = [], hasher_data = []\<rparr> =
     \<lparr>file_text = ''1A=1:5,0,0,0;'' @ [CHR 0x0A], hasher_data = ''1A=1:5,0,0,0;''\<rparr> \<and>
   balance_lines ([(''1A'', [(1, zero_tally\<lparr>balance := 5\<rparr>), (2, zero_tally)])] @
       (''1B'', [(3, zero_tally)]) # []) =
     balance_lines [(''1A'', [(1, zero_tally\<lparr>balance := 5\<rparr>), (2, zero_tally)])] @ balance_lines [] \<and>
   input_msc_balances_string (\<lambda>who propertyId amount ttype n. Suc n) ''1A=1:5,0,0,0;'' (0 :: nat) =
     Parsed 1"
proof -
  note T = C9_balances_nonzero_amounts [of example_tally_map "[(3, zero_tally)]"
      "[(''1A'', [(1, zero_tally\<lparr>balance := 5\<rparr>), (2, zero_tally)])]" "''1B''" "[]"
      "\<lambda>who propertyId amount ttype n. Suc n" "''1A=1:5,0,0,0;''" "0 :: nat"]
  have z: "\<forall>propertyId\<in>set (map fst [(3 :: uint32, zero_tally)]).
        getMoney [(3, zero_tally)] propertyId BALANCE = 0 \<and>
        getMoney [(3, zero_tally)] propertyId SELLOFFER_RESERVE = 0 \<and>
        getMoney [(3, zero_tally)] propertyId ACCEPT_RESERVE = 0 \<and>
        getMoney [(3, zero_tally)] propertyId METADEX_RESERVE = 0"
    by (simp add: getMoney_def zero_tally_def)
  from T have a: "write_msc_balances example_tally_map \<lparr>file_text = [], hasher_data = []\<rparr> =
     \<lparr>file_text = concat (map (\<lambda>l. l @ [CHR 0x0A]) (balance_lines example_tally_map)),
      hasher_data = concat (balance_lines example_tally_map)\<rparr>"
    by (elim conjE)
  from T z have b: "balance_lines ([(''1A'', [(1, zero_tally\<lparr>balance := 5\<rparr>), (2, zero_tally)])] @
       (''1B'', [(3, zero_tally)]) # []) =
     balance_lines [(''1A'', [(1, zero_tally\<lparr>balance := 5\<rparr>), (2, zero_tally)])] @ balance_lines []"
    by (elim conjE) blast
  from T have c: "input_msc_balances_string (\<lambda>who propertyId amount ttype n. Suc n)
       ''1A=1:5,0,0,0;'' (0 :: nat) =
     map_parse_result (\<lambda>calls. apply_calls (\<lambda>who propertyId amount ttype n. Suc n) calls 0)
       (input_msc_balances_string record_call ''1A=1:5,0,0,0;'' [])"
    by (elim conjE)
  show ?thesis
    using a b c
    by (simp add: example_balance_lines example_line_calls map_parse_result_def apply_calls_def)
qed

section \<open>Pruning state files\<close>

subsection \<open>Hexadecimal round trip\<close>

lemma lt16_cases:
  "m < (16::nat) \<Longrightarrow> m \<in> {0, 1, 2, 3, 4, 5, 6, 7, 8, 9, 10, 11, 12, 13, 14, 15}"
  by simp arith

lemma two_cons: "Suc (Suc 0) \<le> length xs \<Longrightarrow> \<exists>a b ys. xs = a # b # ys"
  by (cases xs, simp, rename_tac a ys, case_tac ys, simp_all)

lemma hex_char_props:
  "HexDigit (hex_char n) = Some (n mod 16) \<and> \<not> IsSpace (hex_char n) \<and>
   \<not> is_any_of ''-.'' (hex_char n) \<and> ToLower (hex_char n) \<noteq> CHR ''x''"
proof -
  have "n mod 16 < 16" by simp
  then have "n mod 16 \<in> {0, 1, 2, 3, 4, 5, 6, 7, 8, 9, 10, 11, 12, 13, 14, 15}"
    by (rule lt16_cases)
  then show ?thesis
    unfolding hex_char_def
    by (elim insertE emptyE) (simp_all add: HexDigit_def IsSpace_def is_any_of_def ToLower_def)
qed

lemma length_to_hex [simp]: "length (to_hex k n) = k"
  by (induction k arbitrary: n) simp_all

lemma set_to_hex: "c \<in> set (to_hex k n) \<Longrightarrow> \<exists>m. c = hex_char m"
  by (induction k arbitrary: n) auto

lemma hex_value_snoc:
  "hex_value (ds @ [c]) = 16 * hex_value ds + (case HexDigit c of Some v \<Rightarrow> v | None \<Rightarrow> 0)"
  by (simp add: hex_value_def)

lemma hex_value_to_hex: "hex_value (to_hex k n) = n mod 16 ^ k"
proof (induction k arbitrary: n)
  case 0
  then show ?case by (simp add: hex_value_def)
next
  case (Suc k)
  have "hex_value (to_hex (Suc k) n) = 16 * ((n div 16) mod 16 ^ k) + n mod 16"
    by (simp add: hex_value_snoc Suc hex_char_props)
  also have "\<dots> = n mod 16 ^ Suc k"
    by (simp add: mod_mult2_eq)
  finally show ?case .
qed

lemma SetHex_ToString [simp]: "SetHex (ToString h) = h"
proof -
  let ?s = "to_hex 64 (unat h)"
  have all: "\<forall>c\<in>set ?s. HexDigit c \<noteq> None \<and> \<not> IsSpace c \<and> ToLower c \<noteq> CHR ''x''"
  proof
    fix c assume "c \<in> set ?s"
    then obtain m where "c = hex_char m" using set_to_hex by blast
    then show "HexDigit c \<noteq> None \<and> \<not> IsSpace c \<and> ToLower c \<noteq> CHR ''x''"
      using hex_char_props [of m] by simp
  qed
  have "Suc (Suc 0) \<le> length ?s" by simp
  then obtain c0 c1 cs where s: "?s = c0 # c1 # cs"
    using two_cons by blast
  have sp: "dropWhile IsSpace ?s = ?s"
    using all s by simp
  have "c1 \<in> set ?s" by (simp add: s)
  with all have "ToLower c1 \<noteq> CHR ''x''" by blast
  then have x: "(case ?s of
                  c0 # c1 # cs \<Rightarrow> if c0 = CHR ''0'' \<and> ToLower c1 = CHR ''x'' then cs else ?s
                | _ \<Rightarrow> ?s) = ?s"
    by (simp add: s)
  have tw: "takeWhile (\<lambda>c. HexDigit c \<noteq> None) ?s = ?s"
    using all by (simp add: takeWhile_eq_all_conv)
  have "SetHex (ToString h) = of_nat (hex_value ?s)"
    unfolding SetHex_def ToString_def Let_def sp x tw ..
  also have "\<dots> = of_nat (unat h mod 16 ^ 64)" by (simp only: hex_value_to_hex)
  also have "(16::nat) ^ 64 = 2 ^ LENGTH(256)" by simp
  also have "unat h mod 2 ^ LENGTH(256) = unat h"
    by (rule mod_less) (rule unsigned_less)
  finally show ?thesis by simp
qed

lemma ToString_inj: "ToString a = ToString b \<Longrightarrow> a = b"
proof -
  assume "ToString a = ToString b"
  then have "SetHex (ToString a) = SetHex (ToString b)" by simp
  then show "a = b" by simp
qed



subsection \<open>Splitting a state file name\<close>






subsection \<open>The two loops\<close>










section \<open>Restoring the latest state\<close>










section \<open>Writing a table and reading it back\<close>

subsection \<open>Decimal round trip\<close>

lemma lt10_cases: "m < (10::nat) \<Longrightarrow> m \<in> {0, 1, 2, 3, 4, 5, 6, 7, 8, 9}"
  by simp arith

lemma digit_char_props:
  "is_digit (digit_char n) \<and> of_char (digit_char n) - 48 = n mod 10 \<and>
   digit_char n \<in> set ''0123456789''"
proof -
  have "n mod 10 < 10" by simp
  then have "n mod 10 \<in> {0, 1, 2, 3, 4, 5, 6, 7, 8, 9}"
    by (rule lt10_cases)
  then show ?thesis
    unfolding digit_char_def
    by (elim insertE emptyE) (simp_all add: is_digit_def)
qed

lemma show_nat_nonempty: "show_nat n \<noteq> []"
  by (subst show_nat.simps) simp

lemma show_nat_digits: "c \<in> set (show_nat n) \<Longrightarrow> c \<in> set ''0123456789''"
proof (induction n arbitrary: c rule: show_nat.induct)
  case (1 n)
  show ?case
  proof (cases "n < 10")
    case True
    with "1.prems" have "c = digit_char n" by (subst (asm) show_nat.simps) simp
    then show ?thesis using digit_char_props [of n] by blast
  next
    case False
    with "1.prems" have "c \<in> set (show_nat (n div 10)) \<or> c = digit_char n"
      by (subst (asm) show_nat.simps) auto
    then show ?thesis
      using "1.IH" [OF False] digit_char_props [of n] by blast
  qed
qed

lemma digit_is_digit: "c \<in> set ''0123456789'' \<Longrightarrow> is_digit c"
  by (auto simp: is_digit_def)

lemma show_nat_value:
  "foldl (\<lambda>a c. 10 * a + (of_char c - 48)) 0 (show_nat n) = n"
proof (induction n rule: show_nat.induct)
  case (1 n)
  show ?case
  proof (cases "n < 10")
    case True
    then show ?thesis
      using digit_char_props [of n] by (subst show_nat.simps) simp
  next
    case False
    then show ?thesis
      using "1.IH" [OF False] digit_char_props [of n] by (subst show_nat.simps) simp
  qed
qed

lemma digits_value_show_nat: "digits_value (show_nat n) = Some n"
proof -
  have "list_all is_digit (show_nat n)"
    unfolding list_all_iff using show_nat_digits digit_is_digit by blast
  then show ?thesis
    by (simp add: digits_value_def show_nat_nonempty show_nat_value)
qed

lemma signed_digits_show_nat: "signed_digits (show_nat n) = Some (False, n)"
proof -
  obtain c cs where s: "show_nat n = c # cs"
    using show_nat_nonempty [of n] by (cases "show_nat n") auto
  have "c \<in> set (show_nat n)" by (simp add: s)
  then have "c \<in> set ''0123456789''" by (rule show_nat_digits)
  then have "c \<noteq> CHR ''-''" "c \<noteq> CHR ''+''" by auto
  then show ?thesis
    using digits_value_show_nat [of n] by (simp add: signed_digits_def s)
qed

lemma lexical_cast_show_uint32 [simp]: "lexical_cast_uint32 (show_uint32 w) = Some w"
proof -
  have "unat w < 2 ^ 32" using unsigned_less [of w] by simp
  then show ?thesis
    by (simp add: lexical_cast_uint32_def show_uint32_def signed_digits_show_nat)
qed

lemma lexical_cast_show_int64 [simp]: "lexical_cast_int64 (show_int64 w) = Some w"
proof (cases "sint w < 0")
  case True
  define v where "v = nat (- sint w)"
  have "- (2 ^ 63) \<le> sint w" using sint_ge [of w] by simp
  then have b: "v \<le> 2 ^ 63" unfolding v_def by simp
  have "(of_nat v :: 64 word) = of_int (- sint w)"
    unfolding v_def using True by (simp add: of_nat_nat)
  also have "\<dots> = - w" by simp
  finally have e: "w = - (of_nat v :: 64 word)" by simp
  have s: "show_int64 w = CHR ''-'' # show_nat v"
    using True by (simp add: show_int64_def v_def)
  have "lexical_cast_int64 (CHR ''-'' # show_nat v) = Some (- of_nat v)"
    using b by (simp add: lexical_cast_int64_def digits_value_show_nat signed_digits_def)
  then show ?thesis unfolding s e [symmetric] .
next
  case False
  define v where "v = nat (sint w)"
  have "sint w < 2 ^ 63" using sint_lt [of w] by simp
  then have b: "v < 2 ^ 63" unfolding v_def using False by simp
  have e: "w = (of_nat v :: 64 word)"
    unfolding v_def using False by (simp add: of_nat_nat)
  have s: "show_int64 w = show_nat v"
    using False by (simp add: show_int64_def v_def)
  have "lexical_cast_int64 (show_nat v) = Some (of_nat v)"
    using b by (simp add: lexical_cast_int64_def signed_digits_show_nat)
  then show ?thesis unfolding s e [symmetric] .
qed




lemma show_uint32_nonempty: "show_uint32 w \<noteq> []"
  by (simp add: show_uint32_def show_nat_nonempty)

subsection \<open>Reading back what was written\<close>

lemma getlines_line: "CHR 0x0A \<notin> set l \<Longrightarrow> getlines (l @ CHR 0x0A # rest) = l # getlines rest"
  by (induction l) auto




lemma hex_char_clean: "hex_char m \<noteq> CHR 0x0A \<and> hex_char m \<noteq> CHR 0x0D \<and> ToLower (hex_char m) = hex_char m"
proof -
  have "m mod 16 < 16" by simp
  then have "m mod 16 \<in> {0, 1, 2, 3, 4, 5, 6, 7, 8, 9, 10, 11, 12, 13, 14, 15}"
    by (rule lt16_cases)
  then show ?thesis
    unfolding hex_char_def
    by (elim insertE emptyE) (simp_all add: ToLower_def)
qed

lemma ToString_clean: "CHR 0x0A \<notin> set (ToString h) \<and> CHR 0x0D \<notin> set (ToString h)"
proof -
  have "c \<noteq> CHR 0x0A \<and> c \<noteq> CHR 0x0D" if "c \<in> set (ToString h)" for c
  proof -
    from that obtain m where "c = hex_char m" unfolding ToString_def using set_to_hex by blast
    then show ?thesis using hex_char_clean [of m] by simp
  qed
  then show ?thesis by blast
qed


lemma ToLower_ToString: "map ToLower (ToString h) = ToString h"
proof -
  have "ToLower c = c" if "c \<in> set (ToString h)" for c
  proof -
    from that obtain m where "c = hex_char m" unfolding ToString_def using set_to_hex by blast
    then show ?thesis using hex_char_clean [of m] by simp
  qed
  then show ?thesis by (simp add: map_idI)
qed

lemma iequals_ToString [simp]: "iequals (ToString a) (ToString b) = (a = b)"
  using ToString_inj [of a b] by (auto simp: iequals_def ToLower_ToString)

lemma find_append_None: "find P xs = None \<Longrightarrow> find P (xs @ ys) = find P ys"
  by (induction xs) (simp_all split: if_splits)

lemma open_read_write_file [simp]: "open_read (write_file path content dir) path = Some content"
proof (cases "\<exists>e\<in>set dir. entry_name e = path")
  case True
  have "find (\<lambda>e. entry_name e = path)
          (map (\<lambda>e. if entry_name e = path then e\<lparr>entry_text := content\<rparr> else e) dir) =
        map_option (\<lambda>e. e\<lparr>entry_text := content\<rparr>) (find (\<lambda>e. entry_name e = path) dir)"
    by (induction dir) simp_all
  moreover from True obtain e where "find (\<lambda>e. entry_name e = path) dir = Some e"
    by (cases "find (\<lambda>e. entry_name e = path) dir") (auto simp: find_None_iff)
  ultimately show ?thesis
    using True by (simp add: open_read_def write_file_def)
next
  case False
  then have "find (\<lambda>e. entry_name e = path) dir = None"
    by (simp add: find_None_iff)
  with False show ?thesis
    by (simp add: open_read_def write_file_def find_append_None)
qed



subsection \<open>Splitting a balances line\<close>




subsection \<open>The text of an entry\<close>



















subsection \<open>The balances table, written and restored\<close>





subsection \<open>The example state, written and restored\<close>

lemma getlines_ToString [simp]:
  "getlines (ToString h @ CHR 0x0A # rest) = ToString h # getlines rest"
  using ToString_clean [of h] by (intro getlines_line) simp

lemma filter_ToString [simp]: "filter (\<lambda>c. c \<noteq> CHR 0x0D) (ToString h) = ToString h"
  using ToString_clean [of h] by (auto simp: filter_id_conv)













subsection \<open>The files of a checkpoint\<close>










subsection \<open>The example store\<close>









section \<open>Loading the most relevant state\<close>



section \<open>Checkpoint round trip\<close>




end
